theory Spec2Isabelle
  imports Complex_Main "HOL-Library.Multiset"
begin

section \<open>Python exceptions and numpy array primitives\<close>

text \<open>
  The two notebooks compute over numpy arrays of floats. The development reads them in
  exact arithmetic: a float is a \<^typ>\<open>real\<close>, a 1-D array is a \<^typ>\<open>real list\<close>, an
  integer configuration value is an \<^typ>\<open>int\<close>. Every exception the code can raise is a
  value of the type \<open>error\<close>; a function that can raise returns \<open>error + 'a\<close>. Where a
  statement about \<open>loess_1d\<close> depends on the rounding of doubles, it is made on the
  refinement of the section on double precision below.
\<close>

datatype error =
  TypeError | ValueError | IndexError | RuntimeError | ZeroDivisionError | AttributeError |
  OverflowError

fun bind_err :: "error + 'a \<Rightarrow> ('a \<Rightarrow> error + 'b) \<Rightarrow> error + 'b" where
  "bind_err (Inl e) f = Inl e"
| "bind_err (Inr v) f = f v"

text \<open>A \<open>for\<close> loop that fills an output array, one element per input element; the first
  exception ends it.\<close>

fun map_err :: "('a \<Rightarrow> error + 'b) \<Rightarrow> 'a list \<Rightarrow> error + 'b list" where
  "map_err f [] = Inr []"
| "map_err f (x # xs) = bind_err (f x) (\<lambda>v. bind_err (map_err f xs) (\<lambda>vs. Inr (v # vs)))"

text \<open>A loop that runs its body \<open>k\<close> times on a state.\<close>

fun iterate_err :: "nat \<Rightarrow> ('a \<Rightarrow> error + 'a) \<Rightarrow> 'a \<Rightarrow> error + 'a" where
  "iterate_err 0 f a = Inr a"
| "iterate_err (Suc k) f a = bind_err (f a) (iterate_err k f)"

text \<open>\<open>np.argsort\<close>: the indices that sort the array. Entries that are equal keep their
  index order here; numpy does not fix their order. The proofs below use of \<open>argsort\<close>
  only that it returns a permutation of the indices.\<close>

definition argsort :: "real list \<Rightarrow> nat list" where
  "argsort xs = sort_key (\<lambda>i. xs ! i) [0..<length xs]"

text \<open>\<open>a[idx]\<close> with an index array: IndexError when an index is out of range.\<close>

definition fancy_index :: "'a list \<Rightarrow> nat list \<Rightarrow> error + 'a list" where
  "fancy_index xs idx =
     (if list_all (\<lambda>i. i < length xs) idx then Inr (map (\<lambda>i. xs ! i) idx)
      else Inl IndexError)"

text \<open>\<open>a[:w]\<close>: a negative \<open>w\<close> counts from the end.\<close>

definition slice_to :: "'a list \<Rightarrow> int \<Rightarrow> 'a list" where
  "slice_to xs w = (if 0 \<le> w then take (nat w) xs else take (length xs - nat (- w)) xs)"

text \<open>\<open>np.max\<close>: ValueError on an empty array.\<close>

fun np_max :: "real list \<Rightarrow> error + real" where
  "np_max [] = Inl ValueError"
| "np_max (d # ds) = Inr (fold max ds d)"

definition np_mean :: "real list \<Rightarrow> real" where
  "np_mean ys = sum_list ys / real (length ys)"

text \<open>\<open>np.linalg.solve\<close> on the 2 by 2 system \<open>[[s0, s1], [s1', s2]] [a, b] = [t0, t1]\<close>, in
  exact arithmetic: LinAlgError (here \<open>None\<close>) when the matrix is singular, the unique
  solution otherwise. The routine itself works in double precision and raises only on a
  pivot that is exactly zero; the section on double precision takes it as a parameter.\<close>

definition singular2 :: "real \<times> real \<times> real \<times> real \<Rightarrow> bool" where
  "singular2 m = (case m of (s0, s1, s1', s2) \<Rightarrow> s0 * s2 - s1 * s1' = 0)"

definition solve2 :: "real \<times> real \<times> real \<times> real \<Rightarrow> real \<times> real \<Rightarrow> (real \<times> real) option" where
  "solve2 m t =
     (if singular2 m then None
      else case m of (s0, s1, s1', s2) \<Rightarrow> case t of (t0, t1) \<Rightarrow>
        let det = s0 * s2 - s1 * s1' in
        Some ((t0 * s2 - s1 * t1) / det, (s0 * t1 - s1' * t0) / det))"

section \<open>loess_1d\<close>

text \<open>The number of observations in a local window (source lines 51 to 55), with the
  exact product of the bandwidth and the length. The product of doubles is in the
  section on double precision.\<close>

definition num_points_in_window :: "real \<Rightarrow> nat \<Rightarrow> int" where
  "num_points_in_window bandwidth n =
     (let w = \<lceil>bandwidth * real n\<rceil>;
          w = (if w < 2 then 2 else w);
          w = (if w > int n then int n else w)
      in w)"

definition nearest_indices :: "real list \<Rightarrow> nat \<Rightarrow> real \<Rightarrow> real \<Rightarrow> nat list" where
  "nearest_indices x_sorted n bandwidth p =
     slice_to (argsort (map (\<lambda>v. \<bar>v - p\<bar>) x_sorted)) (num_points_in_window bandwidth n)"

text \<open>The tricube weights of a window, or all ones when the window has no extent.\<close>

definition window_weights :: "real list \<Rightarrow> real \<Rightarrow> real list" where
  "window_weights dist_window max_dist =
     (if max_dist < 1 / 10 ^ 9 then map (\<lambda>_. 1) dist_window
      else map (\<lambda>d. (1 - (d / max_dist) ^ 3) ^ 3) dist_window)"

text \<open>The matrix \<open>X\<^sup>T W X\<close> and the vector \<open>X\<^sup>T W Y\<close> of the weighted normal equations.\<close>

definition XTWX :: "real list \<Rightarrow> real list \<Rightarrow> real \<times> real \<times> real \<times> real" where
  "XTWX weights x_window =
     (sum_list weights,
      sum_list (map2 (\<lambda>w x. w * x) weights x_window),
      sum_list (map2 (\<lambda>w x. x * w) weights x_window),
      sum_list (map2 (\<lambda>w x. x * w * x) weights x_window))"

definition XTWY :: "real list \<Rightarrow> real list \<Rightarrow> real list \<Rightarrow> real \<times> real" where
  "XTWY weights x_window y_window =
     (sum_list (map2 (\<lambda>w y. w * y) weights y_window),
      sum_list (map2 (\<lambda>(w, x) y. x * w * y) (zip weights x_window) y_window))"

text \<open>The coefficients \<open>(a, b)\<close> of the local line: the solution of the normal equations,
  or the fallback of the \<open>except\<close> branch.\<close>

definition local_fit :: "real list \<Rightarrow> real list \<Rightarrow> real list \<Rightarrow> real \<times> real" where
  "local_fit weights x_window y_window =
     (case solve2 (XTWX weights x_window) (XTWY weights x_window y_window) of
        Some coeffs \<Rightarrow> coeffs
      | None \<Rightarrow>
          if sum_list weights < 1 / 10 ^ 9 then (np_mean y_window, 0)
          else (sum_list (map2 (\<lambda>w y. w * y) weights y_window) / sum_list weights, 0))"

text \<open>The body of the loop over the query points: the window of the nearest
  observations, its weights, the local line and its value at the point.\<close>

definition loess_window ::
  "real list \<Rightarrow> real list \<Rightarrow> nat \<Rightarrow> real \<Rightarrow> real \<Rightarrow> error + real list \<times> real list \<times> real list" where
  "loess_window x_sorted y_sorted n bandwidth p =
     (let distances = map (\<lambda>v. \<bar>v - p\<bar>) x_sorted;
          nearest = nearest_indices x_sorted n bandwidth p
      in bind_err (fancy_index x_sorted nearest) (\<lambda>x_window.
         bind_err (fancy_index y_sorted nearest) (\<lambda>y_window.
         bind_err (fancy_index distances nearest) (\<lambda>dist_window.
           Inr (x_window, y_window, dist_window)))))"

definition loess_weights :: "real list \<Rightarrow> error + real list" where
  "loess_weights dist_window =
     bind_err (np_max dist_window) (\<lambda>max_dist. Inr (window_weights dist_window max_dist))"

definition loess_point :: "real list \<Rightarrow> real list \<Rightarrow> nat \<Rightarrow> real \<Rightarrow> real \<Rightarrow> error + real" where
  "loess_point x_sorted y_sorted n bandwidth p =
     bind_err (loess_window x_sorted y_sorted n bandwidth p) (\<lambda>(x_window, y_window, dist_window).
     bind_err (loess_weights dist_window) (\<lambda>weights.
       let (a, b) = local_fit weights x_window y_window
       in Inr (a + b * p)))"

definition loess_1d :: "real list \<Rightarrow> real list \<Rightarrow> real list \<Rightarrow> real \<Rightarrow> error + real list" where
  "loess_1d y x points bandwidth =
     (let n = length x in
      if n = 0 then Inr (map (\<lambda>_. 0) points)
      else
        let sort_indices = argsort x in
        bind_err (fancy_index x sort_indices) (\<lambda>x_sorted.
        bind_err (fancy_index y sort_indices) (\<lambda>y_sorted.
          map_err (loess_point x_sorted y_sorted n bandwidth) points)))"

section \<open>SimpleSTL\<close>

text \<open>The instance: the configuration given to the constructor, and the results of the
  last \<open>fit\<close>. A field that holds \<open>None\<close> in Python is \<open>None\<close> here.\<close>

record stl =
  seasonal_period :: int
  n_trend_bandwidth :: "int option"
  n_lowpass_bandwidth :: "int option"
  seasonal_smoother_span :: "real option"
  trend_smoother_span :: "real option"
  lowpass_smoother_span :: "real option"
  n_inner_iterations :: int
  n_outer_iterations :: int
  seasonal :: "real list option"
  trend :: "real list option"
  residual :: "real list option"
  stl_data :: "real list option"
  stl_n :: nat
  stl_times :: "real list option"

definition init_stl ::
  "int \<Rightarrow> int option \<Rightarrow> int option \<Rightarrow> real option \<Rightarrow> real option \<Rightarrow> real option \<Rightarrow> int \<Rightarrow> int \<Rightarrow> stl" where
  "init_stl sp ntb nlb sss tss lss n_inner n_outer =
     \<lparr>seasonal_period = sp, n_trend_bandwidth = ntb, n_lowpass_bandwidth = nlb,
      seasonal_smoother_span = sss, trend_smoother_span = tss, lowpass_smoother_span = lss,
      n_inner_iterations = n_inner, n_outer_iterations = n_outer,
      seasonal = None, trend = None, residual = None, stl_data = None, stl_n = 0, stl_times = None\<rparr>"

text \<open>\<open>np.arange(i, n, step)\<close> for a positive step, and \<open>range(k)\<close>.\<close>

definition arange :: "nat \<Rightarrow> nat \<Rightarrow> nat \<Rightarrow> nat list" where
  "arange i n step = map (\<lambda>k. i + k * step) [0..<(n - i + step - 1) div step]"

definition py_range :: "int \<Rightarrow> nat list" where
  "py_range k = [0..<nat k]"

text \<open>\<open>a[idx] = vals\<close>: the values are written at the indices, in order.\<close>

definition scatter :: "real list \<Rightarrow> nat list \<Rightarrow> real list \<Rightarrow> real list" where
  "scatter a idx vals = fold (\<lambda>(i, v) acc. acc[i := v]) (zip idx vals) a"

text \<open>The default window lengths (source lines 178 to 189): \<open>ceil(factor * period)\<close>, made
  odd, at least 3. The trend window has the factor 1.5, the low-pass window the factor 1.\<close>

definition default_bandwidth :: "real \<Rightarrow> int \<Rightarrow> int" where
  "default_bandwidth factor sp =
     (let b = \<lceil>factor * real_of_int sp\<rceil>;
          b = (if b mod 2 = 0 then b + 1 else b);
          b = (if b < 3 then 3 else b)
      in b)"

text \<open>Step 2 of an inner pass, for the cycle-subseries \<open>i\<close>.\<close>

definition smooth_subseries ::
  "real list \<Rightarrow> real list \<Rightarrow> nat \<Rightarrow> nat \<Rightarrow> real \<Rightarrow> nat \<Rightarrow> real list \<Rightarrow> error + real list" where
  "smooth_subseries time_idx deseasonalized n sp bandwidth i seasonal_smoothed =
     (let period_indices = arange i n sp in
      if length period_indices > 0 then
        bind_err (fancy_index time_idx period_indices) (\<lambda>period_times.
        bind_err (fancy_index deseasonalized period_indices) (\<lambda>period_values.
        bind_err (loess_1d period_values period_times period_times bandwidth) (\<lambda>smoothed_values.
          Inr (scatter seasonal_smoothed period_indices smoothed_values))))
      else Inr seasonal_smoothed)"

fun for_err :: "'i list \<Rightarrow> ('i \<Rightarrow> 'a \<Rightarrow> error + 'a) \<Rightarrow> 'a \<Rightarrow> error + 'a" where
  "for_err [] f a = Inr a"
| "for_err (i # is) f a = bind_err (f i a) (for_err is f)"

text \<open>One inner pass (steps 1 to 7), on the components \<open>(seasonal, trend, residual)\<close>.\<close>

definition inner_pass ::
  "real list \<Rightarrow> real list \<Rightarrow> nat \<Rightarrow> int \<Rightarrow> real \<Rightarrow> real \<Rightarrow>
   real list \<times> real list \<times> real list \<Rightarrow> error + real list \<times> real list \<times> real list" where
  "inner_pass data time_idx n sp seasonal_span trend_span c =
     (case c of (seasonal0, trend0, residual0) \<Rightarrow>
      let deseasonalized = map2 (-) data trend0 in
      bind_err (for_err (py_range sp)
                  (smooth_subseries time_idx deseasonalized n (nat sp) seasonal_span)
                  (replicate n 0)) (\<lambda>seasonal_smoothed.
      bind_err (loess_1d seasonal_smoothed time_idx time_idx trend_span) (\<lambda>seasonal_trend.
        let seasonal1 = map2 (-) seasonal_smoothed seasonal_trend;
            detrended = map2 (-) data seasonal1
        in bind_err (loess_1d detrended time_idx time_idx trend_span) (\<lambda>trend1.
             Inr (seasonal1, trend1, map2 (-) (map2 (-) data seasonal1) trend1)))))"

definition robustness_weights :: "nat \<Rightarrow> real list" where
  "robustness_weights n = replicate n 1"

text \<open>One outer pass: the weights are set to ones, then the inner passes run.\<close>

definition outer_pass ::
  "real list \<Rightarrow> real list \<Rightarrow> nat \<Rightarrow> int \<Rightarrow> real \<Rightarrow> real \<Rightarrow> int \<Rightarrow>
   real list \<times> real list \<times> real list \<Rightarrow> error + real list \<times> real list \<times> real list" where
  "outer_pass data time_idx n sp seasonal_span trend_span n_inner c =
     (let weights = robustness_weights n in
      iterate_err (length (py_range n_inner))
        (inner_pass data time_idx n sp seasonal_span trend_span) c)"

text \<open>\<open>fit\<close> on a 1-D float array (the TypeError and the ValueError of its first lines are
  for inputs that are not such an array).\<close>

definition fit :: "stl \<Rightarrow> real list \<Rightarrow> error + stl" where
  "fit self data =
     (let self = self\<lparr>stl_data := Some data, stl_n := length data\<rparr>;
          n = stl_n self in
      if n = 0 then Inr (self\<lparr>seasonal := Some [], trend := Some [], residual := Some []\<rparr>)
      else
        let time_idx = map real [0..<n];
            self = self\<lparr>stl_times := Some time_idx\<rparr>;
            self = self\<lparr>seasonal := Some (replicate n 0), trend := Some (replicate n 0),
                         residual := Some data\<rparr>;
            seasonal_span =
              (case seasonal_smoother_span self of None \<Rightarrow> 7 / real n | Some v \<Rightarrow> v);
            self = self\<lparr>seasonal_smoother_span := Some seasonal_span\<rparr>;
            ntb = (case n_trend_bandwidth self of
                     None \<Rightarrow> default_bandwidth (3 / 2) (seasonal_period self) | Some b \<Rightarrow> b);
            self = self\<lparr>n_trend_bandwidth := Some ntb\<rparr>;
            nlb = (case n_lowpass_bandwidth self of
                     None \<Rightarrow> default_bandwidth 1 (seasonal_period self) | Some b \<Rightarrow> b);
            self = self\<lparr>n_lowpass_bandwidth := Some nlb\<rparr>;
            trend_span =
              (case trend_smoother_span self of
                 None \<Rightarrow> real_of_int ntb / real n | Some v \<Rightarrow> v);
            self = self\<lparr>trend_smoother_span := Some trend_span\<rparr>;
            lowpass_span =
              (case lowpass_smoother_span self of
                 None \<Rightarrow> real_of_int nlb / real n | Some v \<Rightarrow> v);
            self = self\<lparr>lowpass_smoother_span := Some lowpass_span\<rparr>
        in bind_err
             (iterate_err (length (py_range (n_outer_iterations self + 1)))
                (outer_pass data time_idx n (seasonal_period self) seasonal_span trend_span
                   (n_inner_iterations self))
                (replicate n 0, replicate n 0, data))
             (\<lambda>(seasonal1, trend1, residual1).
                Inr (self\<lparr>seasonal := Some seasonal1, trend := Some trend1,
                          residual := Some residual1\<rparr>)))"

definition get_components :: "stl \<Rightarrow> real list option \<times> real list option \<times> real list option" where
  "get_components self = (seasonal self, trend self, residual self)"

section \<open>SimpleRBFKernelRegression\<close>

text \<open>A 2-D array of floats: its number of columns and its rows. (The number of columns
  is kept beside the rows because an array with no row still has one.)\<close>

datatype array2 = Array2 (ncols: nat) (rows: "real list list")

definition nrows :: "array2 \<Rightarrow> nat" where
  "nrows M = length (rows M)"

record rbf =
  sigma :: real
  lambda_reg :: real
  X_train :: "array2 option"
  y_train :: "real list option"
  trained :: bool

definition init_rbf :: "real \<Rightarrow> real \<Rightarrow> rbf" where
  "init_rbf sig lam =
     \<lparr>sigma = sig, lambda_reg = lam, X_train = None, y_train = None, trained = False\<rparr>"

text \<open>The row sums \<open>np.sum(x**2, axis=1)\<close> and the entries of \<open>x1 @ x2.T\<close>.\<close>

definition sum_sq :: "real list \<Rightarrow> real" where
  "sum_sq u = sum_list (map (\<lambda>a. a ^ 2) u)"

definition dot :: "real list \<Rightarrow> real list \<Rightarrow> real" where
  "dot u v = sum_list (map2 (\<lambda>a b. a * b) u v)"

text \<open>The squared distances of the matrix case (source lines 87 to 89), in exact
  arithmetic: the expansion \<open>|u|\<^sup>2 + |v|\<^sup>2 - 2 u.v\<close>, negative entries set to zero. The
  matrix product raises ValueError when the two arrays differ in their number of columns.\<close>

definition sq_dists :: "array2 \<Rightarrow> array2 \<Rightarrow> error + real list list" where
  "sq_dists x1 x2 =
     (if ncols x1 \<noteq> ncols x2 then Inl ValueError
      else Inr (map (\<lambda>u. map (\<lambda>v.
                  let s = sum_sq u + sum_sq v - 2 * dot u v in if s < 0 then 0 else s)
                (rows x2)) (rows x1)))"

text \<open>\<open>_rbf_kernel\<close> on two 2-D arrays (the branch \<open>x1.ndim > 1 and x2.ndim > 1\<close>). The
  division \<open>1.0 / (2 * sigma**2)\<close> raises ZeroDivisionError when \<open>sigma\<close> is zero.\<close>

definition rbf_kernel :: "real \<Rightarrow> array2 \<Rightarrow> array2 \<Rightarrow> error + real list list" where
  "rbf_kernel sig x1 x2 =
     (if 2 * sig ^ 2 = 0 then Inl ZeroDivisionError
      else
        let gamma = 1 / (2 * sig ^ 2) in
        bind_err (sq_dists x1 x2) (\<lambda>d. Inr (map (map (\<lambda>s. exp (- gamma * s))) d)))"

definition rbf_fit :: "rbf \<Rightarrow> array2 \<Rightarrow> real list \<Rightarrow> rbf" where
  "rbf_fit self X y = self\<lparr>X_train := Some X, y_train := Some y, trained := True\<rparr>"

text \<open>\<open>np.eye(n)\<close>, \<open>lam * M\<close>, \<open>A + B\<close> on arrays of one shape, and \<open>M @ v\<close>, which raises
  ValueError unless the rows of \<open>M\<close> have the length of \<open>v\<close>.\<close>

definition eye :: "nat \<Rightarrow> real list list" where
  "eye n = map (\<lambda>i. map (\<lambda>j. if i = j then 1 else 0) [0..<n]) [0..<n]"

definition mat_scale :: "real \<Rightarrow> real list list \<Rightarrow> real list list" where
  "mat_scale c M = map (map (\<lambda>a. c * a)) M"

definition mat_add :: "real list list \<Rightarrow> real list list \<Rightarrow> real list list" where
  "mat_add A B = map2 (map2 (\<lambda>a b. a + b)) A B"

definition matvec :: "nat \<Rightarrow> real list list \<Rightarrow> real list \<Rightarrow> error + real list" where
  "matvec n M v = (if length v \<noteq> n then Inl ValueError else Inr (map (\<lambda>r. dot r v) M))"

text \<open>\<open>predict\<close>. The two functions of \<open>numpy.linalg\<close> it calls are parameters:
  \<open>linalg_solve A y\<close> is \<open>np.linalg.solve\<close> on a square matrix and a vector of its size,
  \<open>None\<close> for a LinAlgError; \<open>linalg_pinv A\<close> is \<open>np.linalg.pinv\<close>. The warning printed
  on the pseudo-inverse path is not part of the result. The branches for a trained
  instance that holds no training data are the exceptions Python raises on \<open>None\<close>;
  \<open>fit\<close> never produces such an instance.\<close>

definition solve_alpha ::
  "(real list list \<Rightarrow> real list \<Rightarrow> real list option) \<Rightarrow> (real list list \<Rightarrow> real list list) \<Rightarrow>
   nat \<Rightarrow> real list list \<Rightarrow> real list \<Rightarrow> error + real list" where
  "solve_alpha linalg_solve linalg_pinv n K y =
     (if length y \<noteq> n then Inl ValueError
      else case linalg_solve K y of
             Some alpha \<Rightarrow> Inr alpha
           | None \<Rightarrow> matvec n (linalg_pinv K) y)"

definition predict ::
  "(real list list \<Rightarrow> real list \<Rightarrow> real list option) \<Rightarrow> (real list list \<Rightarrow> real list list) \<Rightarrow>
   rbf \<Rightarrow> array2 \<Rightarrow> error + real list" where
  "predict linalg_solve linalg_pinv self X_test =
     (if \<not> trained self then Inl RuntimeError
      else case X_train self of
        None \<Rightarrow> Inl AttributeError
      | Some Xtr \<Rightarrow>
          let n_test_samples = nrows X_test;
              n_train_samples = nrows Xtr
          in if n_train_samples = 0 then Inr (replicate n_test_samples 0)
             else
               bind_err (rbf_kernel (sigma self) X_test Xtr) (\<lambda>K_test_train.
               bind_err (rbf_kernel (sigma self) Xtr Xtr) (\<lambda>K_train_train.
                 let K_train_train_reg =
                       mat_add K_train_train (mat_scale (lambda_reg self) (eye n_train_samples))
                 in case y_train self of
                      None \<Rightarrow> Inl TypeError
                    | Some ytr \<Rightarrow>
                        bind_err (solve_alpha linalg_solve linalg_pinv n_train_samples
                                    K_train_train_reg ytr) (\<lambda>alpha.
                          matvec n_train_samples K_test_train alpha))))"

text \<open>A history of calls on one instance. \<open>predict\<close> only reads the instance.\<close>

datatype rbf_call = Fit array2 "real list" | Predict array2

fun run_call :: "rbf \<Rightarrow> rbf_call \<Rightarrow> rbf" where
  "run_call self (Fit X y) = rbf_fit self X y"
| "run_call self (Predict X_test) = self"

definition run_calls :: "rbf \<Rightarrow> rbf_call list \<Rightarrow> rbf" where
  "run_calls self calls = fold (\<lambda>c s. run_call s c) calls self"

fun is_fit :: "rbf_call \<Rightarrow> bool" where
  "is_fit (Fit X y) = True"
| "is_fit (Predict X_test) = False"

section \<open>loess_1d in double precision\<close>

text \<open>
  Two steps of \<open>loess_1d\<close> depend on the arithmetic of doubles: the number of observations
  in the window is the ceiling of a product of doubles (source line 51), and the local
  line comes from \<open>np.linalg.solve\<close>, a library routine that works in double precision and
  raises \<open>LinAlgError\<close> only when its elimination meets a pivot that is exactly zero. The
  statements about these two steps are made on the refinement below: the product is
  rounded to the nearest double, and the solver is a parameter. A double is the real
  number it denotes.
\<close>

definition pow2 :: "int \<Rightarrow> real" where
  "pow2 e = (if 0 \<le> e then 2 ^ nat e else 1 / 2 ^ nat (- e))"

text \<open>Rounding to the nearest integer, a tie going to the even one.\<close>

definition round_even :: "real \<Rightarrow> int" where
  "round_even t =
     (let f = \<lfloor>t\<rfloor> in
      if t - real_of_int f < 1 / 2 then f
      else if 1 / 2 < t - real_of_int f then f + 1
      else if even f then f else f + 1)"

text \<open>The exponent of the last place of the doubles around \<open>x\<close>: 53 significant bits, and
  the subnormal spacing \<open>2\<^sup>-\<^sup>1\<^sup>0\<^sup>7\<^sup>4\<close> below \<open>2\<^sup>-\<^sup>1\<^sup>0\<^sup>2\<^sup>2\<close>.\<close>

definition ulp_exponent :: "real \<Rightarrow> int" where
  "ulp_exponent x = max (\<lfloor>log 2 \<bar>x\<bar>\<rfloor> - 52) (- 1074)"

text \<open>The double nearest to \<open>x\<close> (round to nearest, ties to even), before the overflow
  check.\<close>

definition round_double :: "real \<Rightarrow> real" where
  "round_double x =
     (if x = 0 then 0
      else real_of_int (round_even (x / pow2 (ulp_exponent x))) * pow2 (ulp_exponent x))"

text \<open>The product of two doubles: the exact product rounded; \<open>None\<close> stands for an
  infinity, the result when the rounded product exceeds the largest double.\<close>

definition float_mul :: "real \<Rightarrow> real \<Rightarrow> real option" where
  "float_mul a b =
     (let r = round_double (a * b) in if 2 ^ 1024 \<le> \<bar>r\<bar> then None else Some r)"

text \<open>\<open>int(np.ceil(bandwidth * n))\<close> and the two bounds (source lines 51 to 55). The length
  \<open>n\<close> converts to a double exactly (it is below \<open>2\<^sup>5\<^sup>3\<close>); \<open>int\<close> raises OverflowError on an
  infinity.\<close>

definition num_points_in_window_double :: "real \<Rightarrow> nat \<Rightarrow> error + int" where
  "num_points_in_window_double bandwidth n =
     (case float_mul bandwidth (real n) of
        None \<Rightarrow> Inl OverflowError
      | Some v \<Rightarrow>
          Inr (let w = \<lceil>v\<rceil>;
                   w = (if w < 2 then 2 else w);
                   w = (if w > int n then int n else w)
               in w))"

definition nearest_indices_double :: "real list \<Rightarrow> nat \<Rightarrow> real \<Rightarrow> real \<Rightarrow> error + nat list" where
  "nearest_indices_double x_sorted n bandwidth p =
     bind_err (num_points_in_window_double bandwidth n) (\<lambda>w.
       Inr (slice_to (argsort (map (\<lambda>v. \<bar>v - p\<bar>) x_sorted)) w))"

definition loess_window_double ::
  "real list \<Rightarrow> real list \<Rightarrow> nat \<Rightarrow> real \<Rightarrow> real \<Rightarrow> error + real list \<times> real list \<times> real list" where
  "loess_window_double x_sorted y_sorted n bandwidth p =
     (let distances = map (\<lambda>v. \<bar>v - p\<bar>) x_sorted
      in bind_err (nearest_indices_double x_sorted n bandwidth p) (\<lambda>nearest.
         bind_err (fancy_index x_sorted nearest) (\<lambda>x_window.
         bind_err (fancy_index y_sorted nearest) (\<lambda>y_window.
         bind_err (fancy_index distances nearest) (\<lambda>dist_window.
           Inr (x_window, y_window, dist_window))))))"

text \<open>The local line (source lines 87 to 97), with \<open>np.linalg.solve\<close> on the 2 by 2 system
  as the parameter \<open>linalg_solve\<close>: \<open>None\<close> is its LinAlgError, the only exception the
  \<open>except\<close> branch catches.\<close>

definition local_fit_with ::
  "(real \<times> real \<times> real \<times> real \<Rightarrow> real \<times> real \<Rightarrow> (real \<times> real) option) \<Rightarrow>
   real list \<Rightarrow> real list \<Rightarrow> real list \<Rightarrow> real \<times> real" where
  "local_fit_with linalg_solve weights x_window y_window =
     (case linalg_solve (XTWX weights x_window) (XTWY weights x_window y_window) of
        Some coeffs \<Rightarrow> coeffs
      | None \<Rightarrow>
          if sum_list weights < 1 / 10 ^ 9 then (np_mean y_window, 0)
          else (sum_list (map2 (\<lambda>w y. w * y) weights y_window) / sum_list weights, 0))"

definition loess_point_double ::
  "(real \<times> real \<times> real \<times> real \<Rightarrow> real \<times> real \<Rightarrow> (real \<times> real) option) \<Rightarrow>
   real list \<Rightarrow> real list \<Rightarrow> nat \<Rightarrow> real \<Rightarrow> real \<Rightarrow> error + real" where
  "loess_point_double linalg_solve x_sorted y_sorted n bandwidth p =
     bind_err (loess_window_double x_sorted y_sorted n bandwidth p)
       (\<lambda>(x_window, y_window, dist_window).
     bind_err (loess_weights dist_window) (\<lambda>weights.
       let (a, b) = local_fit_with linalg_solve weights x_window y_window
       in Inr (a + b * p)))"

definition loess_1d_double ::
  "(real \<times> real \<times> real \<times> real \<Rightarrow> real \<times> real \<Rightarrow> (real \<times> real) option) \<Rightarrow>
   real list \<Rightarrow> real list \<Rightarrow> real list \<Rightarrow> real \<Rightarrow> error + real list" where
  "loess_1d_double linalg_solve y x points bandwidth =
     (let n = length x in
      if n = 0 then Inr (map (\<lambda>_. 0) points)
      else
        let sort_indices = argsort x in
        bind_err (fancy_index x sort_indices) (\<lambda>x_sorted.
        bind_err (fancy_index y sort_indices) (\<lambda>y_sorted.
          map_err (loess_point_double linalg_solve x_sorted y_sorted n bandwidth) points)))"

section \<open>Derived notions used in the statements\<close>

subsection \<open>loess_1d\<close>

text \<open>The weighted mean \<open>sum(w * y) / sum(w)\<close>.\<close>

definition weighted_mean :: "real list \<Rightarrow> real list \<Rightarrow> real" where
  "weighted_mean weights ys = sum_list (map2 (\<lambda>w y. w * y) weights ys) / sum_list weights"

subsection \<open>SimpleSTL\<close>

text \<open>The additive identity on the three components: each has the length of the series,
  and their sum is the series.\<close>

definition additive :: "real list \<Rightarrow> real list \<times> real list \<times> real list \<Rightarrow> bool" where
  "additive data c =
     (case c of (s, t, r) \<Rightarrow>
        length s = length data \<and> length t = length data \<and> length r = length data \<and>
        map2 (+) (map2 (+) s t) r = data)"

text \<open>The smoothing parameters in force during a \<open>fit\<close> on a series of length \<open>n > 0\<close>: the
  stored value, or the default where the field is \<open>None\<close> (source lines 175 to 195).\<close>

definition seasonal_span_of :: "stl \<Rightarrow> nat \<Rightarrow> real" where
  "seasonal_span_of self n = (case seasonal_smoother_span self of None \<Rightarrow> 7 / real n | Some v \<Rightarrow> v)"

definition trend_bandwidth_of :: "stl \<Rightarrow> int" where
  "trend_bandwidth_of self =
     (case n_trend_bandwidth self of
        None \<Rightarrow> default_bandwidth (3 / 2) (seasonal_period self) | Some b \<Rightarrow> b)"

definition lowpass_bandwidth_of :: "stl \<Rightarrow> int" where
  "lowpass_bandwidth_of self =
     (case n_lowpass_bandwidth self of
        None \<Rightarrow> default_bandwidth 1 (seasonal_period self) | Some b \<Rightarrow> b)"

definition trend_span_of :: "stl \<Rightarrow> nat \<Rightarrow> real" where
  "trend_span_of self n =
     (case trend_smoother_span self of
        None \<Rightarrow> real_of_int (trend_bandwidth_of self) / real n | Some v \<Rightarrow> v)"

definition lowpass_span_of :: "stl \<Rightarrow> nat \<Rightarrow> real" where
  "lowpass_span_of self n =
     (case lowpass_smoother_span self of
        None \<Rightarrow> real_of_int (lowpass_bandwidth_of self) / real n | Some v \<Rightarrow> v)"

text \<open>The loop nest of \<open>fit\<close> on a series that is not empty, from the initial components.\<close>

definition passes :: "stl \<Rightarrow> real list \<Rightarrow> error + real list \<times> real list \<times> real list" where
  "passes self data =
     iterate_err (length (py_range (n_outer_iterations self + 1)))
       (outer_pass data (map real [0..<length data]) (length data) (seasonal_period self)
          (seasonal_span_of self (length data)) (trend_span_of self (length data))
          (n_inner_iterations self))
       (replicate (length data) 0, replicate (length data) 0, data)"

text \<open>Successive calls of \<open>fit\<close> on one instance, one per series.\<close>

definition fit_all :: "stl \<Rightarrow> real list list \<Rightarrow> error + stl" where
  "fit_all self series = for_err series (\<lambda>data s. fit s data) self"

text \<open>The eight configuration fields the constructor sets, and the instances in which
  \<open>fit\<close> has no default left to fill in.\<close>

definition config :: "stl \<Rightarrow> int \<times> int option \<times> int option \<times> real option \<times> real option \<times> real option \<times> int \<times> int" where
  "config self =
     (seasonal_period self, n_trend_bandwidth self, n_lowpass_bandwidth self,
      seasonal_smoother_span self, trend_smoother_span self, lowpass_smoother_span self,
      n_inner_iterations self, n_outer_iterations self)"

definition frozen :: "stl \<Rightarrow> bool" where
  "frozen self =
     (n_trend_bandwidth self \<noteq> None \<and> n_lowpass_bandwidth self \<noteq> None \<and>
      seasonal_smoother_span self \<noteq> None \<and> trend_smoother_span self \<noteq> None \<and>
      lowpass_smoother_span self \<noteq> None)"

subsection \<open>Linear algebra for SimpleRBFKernelRegression\<close>

text \<open>Square matrices and vectors of size \<open>n\<close> are read as functions on indices, zero
  outside the range: the entries of a nested list, the matrix product, the
  matrix-vector product and the transpose.\<close>

definition mat :: "nat \<Rightarrow> real list list \<Rightarrow> nat \<Rightarrow> nat \<Rightarrow> real" where
  "mat n A = (\<lambda>i j. if i < n \<and> j < n then A ! i ! j else 0)"

definition vec :: "nat \<Rightarrow> real list \<Rightarrow> nat \<Rightarrow> real" where
  "vec n v = (\<lambda>i. if i < n then v ! i else 0)"

definition mm :: "nat \<Rightarrow> (nat \<Rightarrow> nat \<Rightarrow> real) \<Rightarrow> (nat \<Rightarrow> nat \<Rightarrow> real) \<Rightarrow> nat \<Rightarrow> nat \<Rightarrow> real" where
  "mm n f g = (\<lambda>i j. \<Sum>k<n. f i k * g k j)"

definition mv :: "nat \<Rightarrow> (nat \<Rightarrow> nat \<Rightarrow> real) \<Rightarrow> (nat \<Rightarrow> real) \<Rightarrow> nat \<Rightarrow> real" where
  "mv n f u = (\<lambda>i. \<Sum>j<n. f i j * u j)"

definition tr :: "(nat \<Rightarrow> nat \<Rightarrow> real) \<Rightarrow> nat \<Rightarrow> nat \<Rightarrow> real" where
  "tr f = (\<lambda>i j. f j i)"

text \<open>\<open>b\<close> is a Moore-Penrose inverse of \<open>a\<close>: the four Penrose conditions.\<close>

definition penrose :: "nat \<Rightarrow> (nat \<Rightarrow> nat \<Rightarrow> real) \<Rightarrow> (nat \<Rightarrow> nat \<Rightarrow> real) \<Rightarrow> bool" where
  "penrose n a b =
     (mm n (mm n a b) a = a \<and> mm n (mm n b a) b = b \<and>
      tr (mm n a b) = mm n a b \<and> tr (mm n b a) = mm n b a)"

text \<open>A matrix and a vector with rows (and columns) permuted by \<open>pf\<close>.\<close>

definition pm :: "nat \<Rightarrow> (nat \<Rightarrow> nat) \<Rightarrow> (nat \<Rightarrow> nat \<Rightarrow> real) \<Rightarrow> nat \<Rightarrow> nat \<Rightarrow> real" where
  "pm n pf f = (\<lambda>i j. if i < n \<and> j < n then f (pf i) (pf j) else 0)"

definition pv :: "nat \<Rightarrow> (nat \<Rightarrow> nat) \<Rightarrow> (nat \<Rightarrow> real) \<Rightarrow> nat \<Rightarrow> real" where
  "pv n pf u = (\<lambda>i. if i < n then u (pf i) else 0)"

text \<open>A matrix is regular when only the zero vector is mapped to zero.\<close>

definition nonsingular :: "nat \<Rightarrow> (nat \<Rightarrow> nat \<Rightarrow> real) \<Rightarrow> bool" where
  "nonsingular n a = (\<forall>u. mv n a u = (\<lambda>i. 0) \<longrightarrow> (\<forall>j<n. u j = 0))"

text \<open>\<open>a[p]\<close> for an index list \<open>p\<close> that permutes the positions of \<open>a\<close>, on a 1-D array and on
  the rows of a 2-D array.\<close>

definition permute :: "'a list \<Rightarrow> nat list \<Rightarrow> 'a list" where
  "permute xs p = map (\<lambda>i. xs ! i) p"

definition permute_rows :: "array2 \<Rightarrow> nat list \<Rightarrow> array2" where
  "permute_rows X p = Array2 (ncols X) (permute (rows X) p)"

text \<open>The matrix \<open>K_train_train + lambda_reg * I\<close> that \<open>predict\<close> passes to the solver.\<close>

definition reg_gram :: "real \<Rightarrow> real \<Rightarrow> array2 \<Rightarrow> real list list" where
  "reg_gram sig lam X =
     (case rbf_kernel sig X X of
        Inl e \<Rightarrow> []
      | Inr K \<Rightarrow> mat_add K (mat_scale lam (eye (nrows X))))"

text \<open>A nested list that is a square matrix of size \<open>n\<close>.\<close>

definition square :: "nat \<Rightarrow> real list list \<Rightarrow> bool" where
  "square n A = (length A = n \<and> list_all (\<lambda>r. length r = n) A)"

text \<open>What the documentation of \<open>numpy.linalg\<close> states of \<open>solve\<close> and \<open>pinv\<close>, read in exact
  arithmetic, at one system \<open>A alpha = y\<close> of size \<open>n\<close>: \<open>solve\<close> returns a solution when \<open>A\<close> is
  regular and raises LinAlgError when it is singular; \<open>pinv\<close>, which \<open>predict\<close> calls only
  after that error, returns a square matrix that is a Moore-Penrose inverse of \<open>A\<close>.\<close>

definition linalg_contract ::
  "(real list list \<Rightarrow> real list \<Rightarrow> real list option) \<Rightarrow> (real list list \<Rightarrow> real list list) \<Rightarrow>
   nat \<Rightarrow> real list list \<Rightarrow> real list \<Rightarrow> bool" where
  "linalg_contract linalg_solve linalg_pinv n A y =
     (case linalg_solve A y of
        Some alpha \<Rightarrow>
          length alpha = n \<and> (\<forall>i<n. mv n (mat n A) (vec n alpha) i = y ! i) \<and>
          nonsingular n (mat n A)
      | None \<Rightarrow>
          \<not> nonsingular n (mat n A) \<and> square n (linalg_pinv A) \<and>
          penrose n (mat n A) (mat n (linalg_pinv A)))"

text \<open>One entry of the kernel matrix, for a bandwidth that is not zero.\<close>

definition gram_entry :: "real \<Rightarrow> real list \<Rightarrow> real list \<Rightarrow> real" where
  "gram_entry sig u v =
     exp (- (1 / (2 * sig ^ 2)) *
          (let s = sum_sq u + sum_sq v - 2 * dot u v in if s < 0 then 0 else s))"

text \<open>Two exact instances of the library functions, for systems of size 2: Cramer's rule,
  and the Moore-Penrose inverse \<open>J / 4\<close> of the all-ones matrix \<open>J\<close>.\<close>

fun solve_2x2 :: "real list list \<Rightarrow> real list \<Rightarrow> real list option" where
  "solve_2x2 [[a, b], [c, d]] [e, f] =
     (if a * d - b * c = 0 then None
      else Some [(e * d - b * f) / (a * d - b * c), (a * f - c * e) / (a * d - b * c)])"
| "solve_2x2 A y = None"

definition quarter :: "real list list \<Rightarrow> real list list" where
  "quarter A = map (map (\<lambda>a. a / 4)) A"

section \<open>Properties of loess_1d\<close>

lemma set_argsort: "set (argsort xs) = {..<length xs}"
  by (auto simp: argsort_def)

lemma length_argsort: "length (argsort xs) = length xs"
  by (simp add: argsort_def)

lemma mset_argsort: "mset (argsort xs) = mset [0..<length xs]"
  by (simp add: argsort_def)

lemma fancy_index_Inr:
  "set idx \<subseteq> {..<length xs} \<Longrightarrow> fancy_index xs idx = Inr (map (\<lambda>i. xs ! i) idx)"
  by (auto simp: fancy_index_def list_all_iff)

lemma fancy_index_argsort:
  "length ys \<le> length xs \<Longrightarrow> fancy_index xs (argsort ys) = Inr (map (\<lambda>i. xs ! i) (argsort ys))"
  by (rule fancy_index_Inr) (auto simp: set_argsort)

lemma fancy_index_argsort_short:
  "length xs < length ys \<Longrightarrow> fancy_index xs (argsort ys) = Inl IndexError"
  unfolding fancy_index_def list_all_iff set_argsort by auto

lemma num_points_in_window_eq:
  "num_points_in_window b n = min (int n) (max 2 \<lceil>b * real n\<rceil>)"
  unfolding num_points_in_window_def Let_def min_def max_def by auto

lemma num_points_in_window_bounds:
  "1 \<le> n \<Longrightarrow> 1 \<le> num_points_in_window b n \<and> num_points_in_window b n \<le> int n"
  by (simp add: num_points_in_window_eq)

lemma length_nearest_indices:
  "length x_sorted = n \<Longrightarrow> 1 \<le> n \<Longrightarrow>
   length (nearest_indices x_sorted n b p) = nat (num_points_in_window b n)"
  using num_points_in_window_bounds [of n b]
  by (auto simp: nearest_indices_def slice_to_def length_argsort)

lemma set_nearest_indices:
  "set (nearest_indices x_sorted n b p) \<subseteq> {..<length x_sorted}"
proof -
  have "set (nearest_indices x_sorted n b p) \<subseteq> set (argsort (map (\<lambda>v. \<bar>v - p\<bar>) x_sorted))"
    unfolding nearest_indices_def slice_to_def by (auto dest: in_set_takeD)
  then show ?thesis by (simp add: set_argsort)
qed

lemma loess_window_Inr:
  assumes "length y_sorted = length x_sorted"
  shows "loess_window x_sorted y_sorted n b p =
         Inr (map (\<lambda>i. x_sorted ! i) (nearest_indices x_sorted n b p),
              map (\<lambda>i. y_sorted ! i) (nearest_indices x_sorted n b p),
              map (\<lambda>i. \<bar>x_sorted ! i - p\<bar>) (nearest_indices x_sorted n b p))"
proof -
  let ?ni = "nearest_indices x_sorted n b p"
  have s: "set ?ni \<subseteq> {..<length x_sorted}" by (rule set_nearest_indices)
  have 1: "fancy_index x_sorted ?ni = Inr (map (\<lambda>i. x_sorted ! i) ?ni)"
    using s by (rule fancy_index_Inr)
  have 2: "fancy_index y_sorted ?ni = Inr (map (\<lambda>i. y_sorted ! i) ?ni)"
    using s assms by (intro fancy_index_Inr) simp
  have 3: "fancy_index (map (\<lambda>v. \<bar>v - p\<bar>) x_sorted) ?ni
           = Inr (map (\<lambda>i. map (\<lambda>v. \<bar>v - p\<bar>) x_sorted ! i) ?ni)"
    using s by (intro fancy_index_Inr) simp
  have 4: "map (\<lambda>i. map (\<lambda>v. \<bar>v - p\<bar>) x_sorted ! i) ?ni = map (\<lambda>i. \<bar>x_sorted ! i - p\<bar>) ?ni"
    using s by (intro map_cong) auto
  show ?thesis
    unfolding loess_window_def Let_def by (simp add: 1 2 3 4)
qed

lemma loess_weights_Inr:
  "dw \<noteq> [] \<Longrightarrow> loess_weights dw = Inr (window_weights dw (fold max (tl dw) (hd dw)))"
  by (cases dw) (simp_all add: loess_weights_def)

lemma length_window_weights: "length (window_weights dw m) = length dw"
  by (simp add: window_weights_def)

lemma loess_point_Inr:
  assumes "length y_sorted = length x_sorted" "length x_sorted = n" "1 \<le> n"
  shows "\<exists>v. loess_point x_sorted y_sorted n b p = Inr v"
proof -
  let ?ni = "nearest_indices x_sorted n b p"
  have "length ?ni = nat (num_points_in_window b n)"
    using assms by (simp add: length_nearest_indices)
  with num_points_in_window_bounds [of n b] assms have "?ni \<noteq> []" by auto
  then have "map (\<lambda>i. \<bar>x_sorted ! i - p\<bar>) ?ni \<noteq> []" by simp
  from loess_weights_Inr [OF this] loess_window_Inr [OF assms(1), of n b p]
  show ?thesis
    by (simp add: loess_point_def split: prod.splits)
qed

lemma map_err_Inr:
  "(\<And>x. x \<in> set xs \<Longrightarrow> \<exists>v. f x = Inr v) \<Longrightarrow>
   \<exists>vs. map_err f xs = Inr vs \<and> length vs = length xs \<and> (\<forall>i<length xs. f (xs ! i) = Inr (vs ! i))"
proof (induction xs)
  case Nil
  then show ?case by simp
next
  case (Cons x xs)
  from Cons.prems obtain v where v: "f x = Inr v" by auto
  from Cons obtain vs where vs: "map_err f xs = Inr vs" "length vs = length xs"
     "\<forall>i<length xs. f (xs ! i) = Inr (vs ! i)" by auto
  have "\<forall>i<length (x # xs). f ((x # xs) ! i) = Inr ((v # vs) ! i)"
    using v vs(3) by (auto simp: nth_Cons split: nat.splits)
  with v vs show ?case by simp
qed

lemma loess_1d_Inr:
  assumes "length x \<le> length y"
  shows "\<exists>est. loess_1d y x points b = Inr est \<and> length est = length points"
proof (cases "length x = 0")
  case True
  then show ?thesis by (simp add: loess_1d_def)
next
  case False
  let ?xs = "map (\<lambda>i. x ! i) (argsort x)"
  let ?ys = "map (\<lambda>i. y ! i) (argsort x)"
  have fx: "fancy_index x (argsort x) = Inr ?xs" by (simp add: fancy_index_argsort)
  have fy: "fancy_index y (argsort x) = Inr ?ys" using assms by (simp add: fancy_index_argsort)
  have "\<exists>v. loess_point ?xs ?ys (length x) b p = Inr v" for p
    using False by (intro loess_point_Inr) (simp_all add: length_argsort Suc_le_eq)
  then obtain est where "map_err (loess_point ?xs ?ys (length x) b) points = Inr est"
     "length est = length points"
    using map_err_Inr [of points "loess_point ?xs ?ys (length x) b"] by blast
  with False fx fy show ?thesis by (simp add: loess_1d_def)
qed

lemma loess_1d_IndexError:
  assumes "length y < length x"
  shows "loess_1d y x points b = Inl IndexError"
  using assms by (auto simp: loess_1d_def fancy_index_argsort fancy_index_argsort_short)

lemma loess_sorted_Inr:
  assumes "length y = length x"
  shows "fancy_index x (argsort x) = Inr (map (\<lambda>i. x ! i) (argsort x))"
    and "fancy_index y (argsort x) = Inr (map (\<lambda>i. y ! i) (argsort x))"
  using assms by (simp_all add: fancy_index_argsort)

lemma loess_window_total:
  assumes "length y_sorted = length x_sorted" "length x_sorted = n" "1 \<le> n"
  shows "\<exists>xw yw dw. loess_window x_sorted y_sorted n b p = Inr (xw, yw, dw) \<and>
           length xw = nat (num_points_in_window b n) \<and>
           length yw = nat (num_points_in_window b n) \<and>
           length dw = nat (num_points_in_window b n)"
  using assms by (simp add: loess_window_Inr length_nearest_indices)

lemma map_err_nth:
  "map_err f xs = Inr vs \<Longrightarrow> length vs = length xs \<and> (\<forall>i<length xs. f (xs ! i) = Inr (vs ! i))"
proof (induction xs arbitrary: vs)
  case Nil
  then show ?case by simp
next
  case (Cons x xs)
  from Cons.prems obtain v where v: "f x = Inr v" by (cases "f x") simp_all
  with Cons.prems obtain vs' where vs': "map_err f xs = Inr vs'" by (cases "map_err f xs") simp_all
  with v Cons.prems have e: "vs = v # vs'" by simp
  from Cons.IH [OF vs'] v show ?case
    unfolding e by (auto simp: nth_Cons split: nat.splits)
qed

lemma local_fit_singular:
  assumes "singular2 (XTWX weights xw)"
  shows "local_fit weights xw yw =
    ((if sum_list weights < 1 / 10 ^ 9 then np_mean yw
      else sum_list (map2 (\<lambda>w y. w * y) weights yw) / sum_list weights), 0)"
  using assms by (simp add: local_fit_def solve2_def)

lemma loess_point_eq:
  assumes "loess_window x_sorted y_sorted n b p = Inr (xw, yw, dw)" "loess_weights dw = Inr weights"
  shows "loess_point x_sorted y_sorted n b p =
    Inr (fst (local_fit weights xw yw) + snd (local_fit weights xw yw) * p)"
  using assms by (simp add: loess_point_def split: prod.splits)

lemma loess_1d_nonempty:
  assumes "x \<noteq> []" "length y = length x"
  shows "loess_1d y x points b =
    map_err (loess_point (map (\<lambda>i. x ! i) (argsort x)) (map (\<lambda>i. y ! i) (argsort x)) (length x) b) points"
  using assms by (simp add: loess_1d_def loess_sorted_Inr Let_def)

lemma loess_stages_total:
  assumes "length y_sorted = length x_sorted" "length x_sorted = n" "1 \<le> n"
  shows "\<exists>xw yw dw weights. loess_window x_sorted y_sorted n b p = Inr (xw, yw, dw) \<and>
           loess_weights dw = Inr weights"
proof -
  from loess_window_total [OF assms, of b p] obtain xw yw dw where
    w: "loess_window x_sorted y_sorted n b p = Inr (xw, yw, dw)"
       "length dw = nat (num_points_in_window b n)" by blast
  from num_points_in_window_bounds [OF assms(3), of b] w(2) have "dw \<noteq> []" by auto
  from loess_weights_Inr [OF this] w(1) show ?thesis by blast
qed

subsection \<open>The fallback in exact arithmetic\<close>

text \<open>
  With a solver that raises on every singular system, as \<open>solve2\<close> does in exact
  arithmetic, the \<open>except\<close> branch is reached at every query point whose normal-equations
  matrix \<open>X\<^sup>T W X\<close> is singular. The estimate is then the intercept alone (slope 0): the
  unweighted mean of the window's y-values when the weights sum to less than \<open>1e-9\<close>, and
  \<open>sum(w * y) / sum(w)\<close> otherwise. On a nonempty observation set \<open>loess_1d\<close> returns an
  estimate for every query point.
\<close>

lemma loess_exact_singular_fallback:
  assumes "x \<noteq> []" "length y = length x"
  shows "\<exists>x_sorted y_sorted est.
     fancy_index x (argsort x) = Inr x_sorted \<and> fancy_index y (argsort x) = Inr y_sorted \<and>
     loess_1d y x points b = Inr est \<and> length est = length points \<and>
     (\<forall>i<length points. \<exists>xw yw dw weights.
        loess_window x_sorted y_sorted (length x) b (points ! i) = Inr (xw, yw, dw) \<and>
        loess_weights dw = Inr weights \<and>
        (singular2 (XTWX weights xw) \<longrightarrow>
           solve2 (XTWX weights xw) (XTWY weights xw yw) = None \<and>
           est ! i = (if sum_list weights < 1 / 10 ^ 9 then np_mean yw
                      else sum_list (map2 (\<lambda>w y. w * y) weights yw) / sum_list weights)))"
proof -
  let ?xs = "map (\<lambda>i. x ! i) (argsort x)"
  let ?ys = "map (\<lambda>i. y ! i) (argsort x)"
  have n: "1 \<le> length x" using assms(1) by (simp add: Suc_le_eq)
  have len: "length ?ys = length ?xs" "length ?xs = length x" by (simp_all add: length_argsort)
  from loess_1d_Inr [of x y points b] assms(2) obtain est where
    est: "loess_1d y x points b = Inr est" "length est = length points" by auto
  from est(1) have "map_err (loess_point ?xs ?ys (length x) b) points = Inr est"
    by (simp add: loess_1d_nonempty [OF assms])
  from map_err_nth [OF this]
  have pt: "loess_point ?xs ?ys (length x) b (points ! i) = Inr (est ! i)" if "i < length points" for i
    using that by blast
  have "\<exists>xw yw dw weights.
        loess_window ?xs ?ys (length x) b (points ! i) = Inr (xw, yw, dw) \<and>
        loess_weights dw = Inr weights \<and>
        (singular2 (XTWX weights xw) \<longrightarrow>
           solve2 (XTWX weights xw) (XTWY weights xw yw) = None \<and>
           est ! i = (if sum_list weights < 1 / 10 ^ 9 then np_mean yw
                      else sum_list (map2 (\<lambda>w y. w * y) weights yw) / sum_list weights))"
    if i: "i < length points" for i
  proof -
    from loess_stages_total [OF len n, of b "points ! i"] obtain xw yw dw weights where
      w: "loess_window ?xs ?ys (length x) b (points ! i) = Inr (xw, yw, dw)"
         "loess_weights dw = Inr weights" by blast
    from loess_point_eq [OF w] pt [OF i]
    have e: "est ! i = fst (local_fit weights xw yw) + snd (local_fit weights xw yw) * (points ! i)"
      by simp
    have "est ! i = (if sum_list weights < 1 / 10 ^ 9 then np_mean yw
                      else sum_list (map2 (\<lambda>w y. w * y) weights yw) / sum_list weights)"
      if "singular2 (XTWX weights xw)"
      unfolding e local_fit_singular [OF that] by simp
    moreover have "solve2 (XTWX weights xw) (XTWY weights xw yw) = None"
      if "singular2 (XTWX weights xw)"
      using that by (simp add: solve2_def)
    ultimately show ?thesis using w by blast
  qed
  with est loess_sorted_Inr [OF assms(2)] show ?thesis by blast
qed

lemma loess_exact_singular_fallback_example:
  "\<exists>est. loess_1d [1, 3] [3, 3] [5, 3] 1 = Inr est \<and>
     loess_window [3, 3] [1, 3] (length [3, 3 :: real]) 1 5 = Inr ([3, 3], [1, 3], [2, 2]) \<and>
     loess_weights [2, 2] = Inr [0, 0] \<and> singular2 (XTWX [0, 0] [3, 3]) \<and>
     est ! 0 = np_mean [1, 3] \<and>
     loess_window [3, 3] [1, 3] (length [3, 3 :: real]) 1 3 = Inr ([3, 3], [1, 3], [0, 0]) \<and>
     loess_weights [0, 0] = Inr [1, 1] \<and> singular2 (XTWX [1, 1] [3, 3]) \<and>
     est ! 1 = (1 * 1 + 1 * 3) / (1 + 1)"
proof -
  let ?x = "[3, 3] :: real list"
  let ?y = "[1, 3] :: real list"
  let ?pts = "[5, 3] :: real list"
  have h: "?x \<noteq> []" "length ?y = length ?x" by simp_all
  have a: "argsort ?x = [0, 1]" by (simp add: argsort_def)
  have fx: "fancy_index ?x (argsort ?x) = Inr ?x" and fy: "fancy_index ?y (argsort ?x) = Inr ?y"
    by (simp_all add: a fancy_index_def)
  have np: "num_points_in_window 1 (length ?x) = 2"
    by (simp add: num_points_in_window_def)
  have n5: "nearest_indices ?x (length ?x) 1 5 = [0, 1]"
    unfolding nearest_indices_def np by (simp add: argsort_def slice_to_def)
  have n3: "nearest_indices ?x (length ?x) 1 3 = [0, 1]"
    unfolding nearest_indices_def np by (simp add: argsort_def slice_to_def)
  have w5: "loess_window ?x ?y (length ?x) 1 5 = Inr ([3, 3], [1, 3], [2, 2])"
    unfolding loess_window_def Let_def n5 by (simp add: fancy_index_def)
  have w3: "loess_window ?x ?y (length ?x) 1 3 = Inr ([3, 3], [1, 3], [0, 0])"
    unfolding loess_window_def Let_def n3 by (simp add: fancy_index_def)
  have lw5: "loess_weights [2, 2] = Inr [0, 0]"
    by (simp add: loess_weights_def window_weights_def)
  have lw3: "loess_weights [0, 0] = Inr [1, 1]"
    by (simp add: loess_weights_def window_weights_def)
  have s5: "singular2 (XTWX [0, 0] [3, 3])" and s3: "singular2 (XTWX [1, 1] [3, 3])"
    by (simp_all add: singular2_def XTWX_def)
  from loess_exact_singular_fallback [OF h, of ?pts 1] obtain x_sorted y_sorted est where e:
    "fancy_index ?x (argsort ?x) = Inr x_sorted" "fancy_index ?y (argsort ?x) = Inr y_sorted"
    "loess_1d ?y ?x ?pts 1 = Inr est"
    "\<forall>i<length ?pts. \<exists>xw yw dw weights.
        loess_window x_sorted y_sorted (length ?x) 1 (?pts ! i) = Inr (xw, yw, dw) \<and>
        loess_weights dw = Inr weights \<and>
        (singular2 (XTWX weights xw) \<longrightarrow>
           solve2 (XTWX weights xw) (XTWY weights xw yw) = None \<and>
           est ! i = (if sum_list weights < 1 / 10 ^ 9 then np_mean yw
                      else sum_list (map2 (\<lambda>w y. w * y) weights yw) / sum_list weights))"
    by blast
  from e(1,2) fx fy have xs: "x_sorted = ?x" "y_sorted = ?y" by simp_all
  from e(4) have "\<exists>xw yw dw weights.
        loess_window ?x ?y (length ?x) 1 5 = Inr (xw, yw, dw) \<and>
        loess_weights dw = Inr weights \<and>
        (singular2 (XTWX weights xw) \<longrightarrow>
           est ! 0 = (if sum_list weights < 1 / 10 ^ 9 then np_mean yw
                      else sum_list (map2 (\<lambda>w y. w * y) weights yw) / sum_list weights))"
    unfolding xs by fastforce
  with w5 lw5 s5 have e0: "est ! 0 = np_mean [1, 3]" by simp
  from e(4) have "\<exists>xw yw dw weights.
        loess_window ?x ?y (length ?x) 1 3 = Inr (xw, yw, dw) \<and>
        loess_weights dw = Inr weights \<and>
        (singular2 (XTWX weights xw) \<longrightarrow>
           est ! 1 = (if sum_list weights < 1 / 10 ^ 9 then np_mean yw
                      else sum_list (map2 (\<lambda>w y. w * y) weights yw) / sum_list weights))"
    unfolding xs by fastforce
  with w3 lw3 s3 have e1: "est ! 1 = (1 * 1 + 1 * 3) / (1 + 1)" by simp
  from e(3) w5 w3 lw5 lw3 s5 s3 e0 e1 show ?thesis by blast
qed

lemma sum_list_argsort:
  assumes "length ds = length ys"
  shows "sum_list (map (\<lambda>i. ys ! i) (argsort ds)) = sum_list (ys :: real list)"
proof -
  have "sum_list (map (\<lambda>i. ys ! i) (argsort ds))
      = sum_mset (image_mset (\<lambda>i. ys ! i) (mset (argsort ds)))"
    by (metis mset_map sum_mset_sum_list)
  also have "\<dots> = sum_mset (image_mset (\<lambda>i. ys ! i) (mset [0..<length ys]))"
    by (simp add: mset_argsort assms)
  also have "\<dots> = sum_list (map (\<lambda>i. ys ! i) [0..<length ys])"
    by (metis mset_map sum_mset_sum_list)
  also have "\<dots> = sum_list ys" by (simp add: map_nth)
  finally show ?thesis .
qed

lemma np_mean_argsort:
  assumes "length ds = length ys"
  shows "np_mean (map (\<lambda>i. ys ! i) (argsort ds)) = np_mean ys"
  using assms by (simp add: np_mean_def sum_list_argsort length_argsort)

lemma nearest_indices_full:
  assumes "num_points_in_window b n = int n" "length x_sorted = n"
  shows "nearest_indices x_sorted n b p = argsort (map (\<lambda>v. \<bar>v - p\<bar>) x_sorted)"
  using assms by (simp add: nearest_indices_def slice_to_def length_argsort)

lemma map_const_replicate:
  "(\<And>i. i \<in> set is \<Longrightarrow> f i = c) \<Longrightarrow> map f is = replicate (length is) c"
  by (induction "is") simp_all

lemma funpow_max_self: "(max d ^^ k) d = (d :: real)"
  by (induction k) simp_all

lemma loess_weights_replicate:
  assumes "0 < k" "0 \<le> d"
  shows "loess_weights (replicate k d) = Inr (replicate k (if d < 1 / 10 ^ 9 then 1 else 0))"
proof -
  obtain j where k: "k = Suc j" using assms(1) by (cases k) simp_all
  have m: "np_max (replicate k d) = Inr d"
    unfolding k by (simp add: funpow_max_self)
  have "(1 - (d / d) ^ 3) ^ 3 = (0::real)" if "\<not> d < 1 / 10 ^ 9"
  proof -
    from that have "d \<noteq> 0" by auto
    then show ?thesis by simp
  qed
  then show ?thesis
    by (simp add: loess_weights_def m window_weights_def)
qed

lemma sum_list_replicate_real: "sum_list (replicate k (w :: real)) = real k * w"
  by (induction k) (simp_all add: algebra_simps)

lemma map2_replicate_left:
  "length ys = k \<Longrightarrow> map2 f (replicate k w) ys = map (f w) ys"
  by (induction ys arbitrary: k) auto

lemma local_fit_constant_x:
  assumes "length yw = k" "0 < k" "w = 0 \<or> w = 1"
  shows "local_fit (replicate k w) (replicate k c) yw = (np_mean yw, 0)"
proof -
  have x: "map2 f (replicate k w) (replicate k c) = replicate k (f w c)" for f :: "real \<Rightarrow> real \<Rightarrow> real"
    by (simp add: map2_replicate_left)
  have "singular2 (XTWX (replicate k w) (replicate k c))"
    by (simp add: singular2_def XTWX_def x sum_list_replicate_real)
  from local_fit_singular [OF this, of yw] have lf: "local_fit (replicate k w) (replicate k c) yw =
    ((if sum_list (replicate k w) < 1 / 10 ^ 9 then np_mean yw
      else sum_list (map2 (\<lambda>w y. w * y) (replicate k w) yw) / sum_list (replicate k w)), 0)" .
  from assms(3) show ?thesis
  proof
    assume "w = 0"
    then show ?thesis unfolding lf by (simp add: sum_list_replicate_real)
  next
    assume w: "w = 1"
    have "real k \<ge> 1" using assms(2) by simp
    then have "\<not> real k < 1 / 10 ^ 9" by simp
    moreover have "map ((*) 1) yw = yw" by (induction yw) simp_all
    ultimately show ?thesis
      using lf assms(1) unfolding w
      by (simp add: sum_list_replicate_real map2_replicate_left np_mean_def)
  qed
qed

lemma loess_point_constant_x:
  assumes "length y_sorted = n" "0 < n" "num_points_in_window b n = int n"
  shows "loess_point (replicate n c) y_sorted n b p = Inr (np_mean y_sorted)"
proof -
  let ?xs = "replicate n c"
  let ?ds = "map (\<lambda>v. \<bar>v - p\<bar>) ?xs"
  let ?ni = "argsort ?ds"
  have ni: "nearest_indices ?xs n b p = ?ni"
    using assms(3) by (simp add: nearest_indices_full)
  have lni: "length ?ni = n" by (simp add: length_argsort)
  have sni: "set ?ni = {..<n}" by (simp add: set_argsort)
  have xw: "map (\<lambda>i. ?xs ! i) ?ni = replicate n c"
    using map_const_replicate [of ?ni "\<lambda>i. ?xs ! i" c] sni lni by simp
  have dw: "map (\<lambda>i. \<bar>?xs ! i - p\<bar>) ?ni = replicate n \<bar>c - p\<bar>"
    using map_const_replicate [of ?ni "\<lambda>i. \<bar>?xs ! i - p\<bar>" "\<bar>c - p\<bar>"] sni lni by simp
  have w: "loess_window ?xs y_sorted n b p =
      Inr (replicate n c, map (\<lambda>i. y_sorted ! i) ?ni, replicate n \<bar>c - p\<bar>)"
    using loess_window_Inr [of y_sorted ?xs n b p] assms(1)
    by (simp only: ni xw dw length_replicate)
  let ?w = "if \<bar>c - p\<bar> < 1 / 10 ^ 9 then 1 else (0::real)"
  have lw: "loess_weights (replicate n \<bar>c - p\<bar>) = Inr (replicate n ?w)"
    using assms(2) by (intro loess_weights_replicate) simp_all
  have "local_fit (replicate n ?w) (replicate n c) (map (\<lambda>i. y_sorted ! i) ?ni)
      = (np_mean (map (\<lambda>i. y_sorted ! i) ?ni), 0)"
    using assms(2) lni by (intro local_fit_constant_x) simp_all
  also have "np_mean (map (\<lambda>i. y_sorted ! i) ?ni) = np_mean y_sorted"
    using assms(1) by (intro np_mean_argsort) simp
  finally have lf: "local_fit (replicate n ?w) (replicate n c) (map (\<lambda>i. y_sorted ! i) ?ni)
      = (np_mean y_sorted, 0)" .
  show ?thesis
    unfolding loess_point_eq [OF w lw] lf by simp
qed

lemma map_err_const: "(\<And>p. f p = Inr v) \<Longrightarrow> map_err f ps = Inr (map (\<lambda>_. v) ps)"
  by (induction ps) simp_all

text \<open>
  With the same solver: when all x-coordinates are equal and the window spans all \<open>n\<close>
  observations, the normal equations are singular at every query point, and \<open>loess_1d\<close>
  returns the plain mean of \<open>y\<close> there; the plain mean is the weighted mean under any
  uniform nonzero weight.
\<close>

lemma loess_exact_constant_x:
  assumes "x \<noteq> []" "length y = length x" "\<forall>v\<in>set x. v = c"
    "num_points_in_window b (length x) = int (length x)"
  shows "loess_1d y x points b = Inr (map (\<lambda>_. np_mean y) points) \<and>
         (\<forall>w. w \<noteq> 0 \<longrightarrow> weighted_mean (replicate (length y) w) y = np_mean y)"
proof -
  let ?xs = "map (\<lambda>i. x ! i) (argsort x)"
  let ?ys = "map (\<lambda>i. y ! i) (argsort x)"
  have n: "0 < length x" using assms(1) by simp
  have "?xs = replicate (length (argsort x)) c"
    using assms(3) by (intro map_const_replicate) (simp add: set_argsort)
  then have xs: "?xs = replicate (length x) c" by (simp add: length_argsort)
  have ly: "length ?ys = length x" by (simp add: length_argsort)
  have my: "np_mean ?ys = np_mean y"
    using assms(2) by (intro np_mean_argsort) simp
  have "loess_point ?xs ?ys (length x) b p = Inr (np_mean y)" for p
    unfolding xs using loess_point_constant_x [OF ly n assms(4), of c p] my by simp
  then have 1: "loess_1d y x points b = Inr (map (\<lambda>_. np_mean y) points)"
    unfolding loess_1d_nonempty [OF assms(1,2)] by (rule map_err_const)
  have 2: "weighted_mean (replicate (length y) w) y = np_mean y" if "w \<noteq> 0" for w
  proof -
    have "sum_list (map ((*) w) y) = w * sum_list y" by (simp add: sum_list_const_mult)
    with that show ?thesis
      by (simp add: weighted_mean_def map2_replicate_left sum_list_replicate_real np_mean_def)
  qed
  from 1 2 show ?thesis by blast
qed

lemma loess_exact_constant_x_example:
  "loess_1d [1, 3] [3, 3] [5, 3, 0] 1 = Inr [2, 2, 2] \<and> np_mean [1, 3] = 2 \<and>
   weighted_mean [1, 1] [1, 3] = 2"
proof -
  let ?x = "[3, 3] :: real list"
  let ?y = "[1, 3] :: real list"
  have h: "?x \<noteq> []" "length ?y = length ?x" "\<forall>v\<in>set ?x. v = 3"
    "num_points_in_window 1 (length ?x) = int (length ?x)"
    by (simp_all add: num_points_in_window_def)
  have m: "np_mean ?y = 2" by (simp add: np_mean_def)
  have r: "replicate (length ?y) (1::real) = [1, 1]" by simp
  from loess_exact_constant_x [OF h, of "[5, 3, 0]"]
  have "loess_1d ?y ?x [5, 3, 0] 1 = Inr (map (\<lambda>_. np_mean ?y) [5, 3, 0])"
    "weighted_mean (replicate (length ?y) 1) ?y = np_mean ?y"
    by simp_all
  then show ?thesis unfolding m r by simp
qed

subsection \<open>Rounding to doubles\<close>

lemma pow2_powr: "pow2 e = 2 powr real_of_int e"
  by (simp add: pow2_def powr_real_of_int inverse_eq_divide)


lemma pow2_pos: "0 < pow2 e"
  by (simp add: pow2_powr)

lemma ulp_exponent_eq:
  assumes "pow2 k \<le> \<bar>x\<bar>" "\<bar>x\<bar> < pow2 (k + 1)"
  shows "ulp_exponent x = max (k - 52) (- 1074)"
proof -
  have "0 < \<bar>x\<bar>" using assms(1) pow2_pos [of k] by linarith
  moreover have "2 powr real_of_int k \<le> \<bar>x\<bar> \<and> \<bar>x\<bar> < 2 powr real_of_int (k + 1)"
    using assms by (simp only: pow2_powr)
  ultimately have "\<lfloor>log 2 \<bar>x\<bar>\<rfloor> = k"
    by (subst floor_log_eq_powr_iff) simp_all
  then show ?thesis by (simp add: ulp_exponent_def)
qed

lemma round_double_eq:
  assumes "pow2 k \<le> \<bar>x\<bar>" "\<bar>x\<bar> < pow2 (k + 1)"
  shows "round_double x =
    real_of_int (round_even (x / pow2 (max (k - 52) (- 1074)))) * pow2 (max (k - 52) (- 1074))"
proof -
  have "x \<noteq> 0" using assms(1) pow2_pos [of k] by auto
  then show ?thesis by (simp add: round_double_def ulp_exponent_eq [OF assms])
qed

lemma round_even_of_int: "round_even (real_of_int k) = k"
  by (simp add: round_even_def)

text \<open>A multiple of the last place is a double, and rounding leaves it as it is.\<close>

lemma round_double_exact:
  assumes "pow2 k \<le> \<bar>x\<bar>" "\<bar>x\<bar> < pow2 (k + 1)" "x = real_of_int m * pow2 (max (k - 52) (- 1074))"
  shows "round_double x = x"
proof -
  have "x / pow2 (max (k - 52) (- 1074)) = real_of_int m"
    using pow2_pos [of "max (k - 52) (- 1074)"] assms(3) by simp
  then show ?thesis
    unfolding round_double_eq [OF assms(1,2)] by (simp add: round_even_of_int assms(3))
qed

lemma round_double_zero: "round_double 0 = 0"
  by (simp add: round_double_def)

text \<open>Away from a tie, rounding goes to the nearest multiple of the last place.\<close>

lemma round_even_near:
  assumes "\<bar>t - real_of_int m\<bar> < 1 / 2"
  shows "round_even t = m"
proof (cases "real_of_int m \<le> t")
  case True
  with assms have "\<lfloor>t\<rfloor> = m" by (intro floor_unique) linarith+
  with assms True show ?thesis by (simp add: round_even_def)
next
  case False
  with assms have f: "\<lfloor>t\<rfloor> = m - 1" by (intro floor_unique) (simp, linarith+)
  from assms False have "1 / 2 < t - real_of_int (m - 1)" by simp
  then show ?thesis unfolding round_even_def f Let_def by simp
qed

lemma round_double_near:
  assumes "pow2 k \<le> \<bar>x\<bar>" "\<bar>x\<bar> < pow2 (k + 1)"
    "\<bar>x / pow2 (max (k - 52) (- 1074)) - real_of_int m\<bar> < 1 / 2"
  shows "round_double x = real_of_int m * pow2 (max (k - 52) (- 1074))"
  unfolding round_double_eq [OF assms(1,2)] round_even_near [OF assms(3)] ..

lemma float_mul_exact:
  assumes "pow2 k \<le> \<bar>a * b\<bar>" "\<bar>a * b\<bar> < pow2 (k + 1)" "k < 1024"
    "a * b = real_of_int m * pow2 (max (k - 52) (- 1074))"
  shows "float_mul a b = Some (a * b)"
proof -
  have "pow2 (k + 1) \<le> pow2 1024"
    unfolding pow2_powr using assms(3) by (intro powr_mono) simp_all
  also have "pow2 1024 = 2 ^ 1024" by (simp add: pow2_def)
  finally have "\<bar>a * b\<bar> < 2 ^ 1024" using assms(2) by linarith
  then show ?thesis
    by (simp add: float_mul_def round_double_exact [OF assms(1,2,4)])
qed

text \<open>The products used below. The double nearest to 0.1 is \<open>3602879701896397 / 2\<^sup>5\<^sup>5\<close>, a
  little above 0.1; its product with 20 is a little above 2 and rounds to 2. The double
  next above 2/3 is \<open>3002399751580331 / 2\<^sup>5\<^sup>2\<close>; its product with 3 lies halfway between 2
  and the next double, and the tie goes to 2.\<close>

lemma float_mul_tenth_20: "float_mul (3602879701896397 / 2 ^ 55) 20 = Some 2"
proof -
  let ?x = "3602879701896397 / 2 ^ 55 * 20 :: real"
  have "pow2 1 \<le> \<bar>?x\<bar>" "\<bar>?x\<bar> < pow2 (1 + 1)" by (simp_all add: pow2_def)
  from round_double_eq [OF this]
  have "round_double ?x = real_of_int (round_even (?x / pow2 (- 51))) * pow2 (- 51)" by simp
  moreover have "?x / pow2 (- 51) = 4503599627370496 + 1 / 4" by (simp add: pow2_def)
  moreover have "round_even (4503599627370496 + 1 / 4) = 4503599627370496"
  proof -
    have "\<lfloor>4503599627370496 + 1 / 4 :: real\<rfloor> = 4503599627370496" by linarith
    then show ?thesis by (simp add: round_even_def)
  qed
  ultimately have "round_double ?x = 2" by (simp add: pow2_def)
  then show ?thesis by (simp add: float_mul_def)
qed

lemma float_mul_two_thirds_3: "float_mul (3002399751580331 / 2 ^ 52) 3 = Some 2"
proof -
  let ?x = "3002399751580331 / 2 ^ 52 * 3 :: real"
  have "pow2 1 \<le> \<bar>?x\<bar>" "\<bar>?x\<bar> < pow2 (1 + 1)" by (simp_all add: pow2_def)
  from round_double_eq [OF this]
  have "round_double ?x = real_of_int (round_even (?x / pow2 (- 51))) * pow2 (- 51)" by simp
  moreover have "?x / pow2 (- 51) = 4503599627370496 + 1 / 2" by (simp add: pow2_def)
  moreover have "round_even (4503599627370496 + 1 / 2) = 4503599627370496"
  proof -
    have "\<lfloor>4503599627370496 + 1 / 2 :: real\<rfloor> = 4503599627370496" by linarith
    then show ?thesis by (simp add: round_even_def)
  qed
  ultimately have "round_double ?x = 2" by (simp add: pow2_def)
  then show ?thesis by (simp add: float_mul_def)
qed

lemma float_mul_half_3: "float_mul (1 / 2) 3 = Some (3 / 2)"
proof -
  have "float_mul (1 / 2) 3 = Some (1 / 2 * 3)"
    by (rule float_mul_exact [where k = 0 and m = 6755399441055744]) (simp_all add: pow2_def)
  then show ?thesis by simp
qed

lemma float_mul_one_1: "float_mul 1 1 = Some 1"
proof -
  have "float_mul 1 1 = Some (1 * 1)"
    by (rule float_mul_exact [where k = 0 and m = 4503599627370496]) (simp_all add: pow2_def)
  then show ?thesis by simp
qed

lemma float_mul_huge_3: "float_mul (2 ^ 1023) 3 = None"
proof -
  let ?x = "2 ^ 1023 * 3 :: real"
  have b: "pow2 1024 \<le> \<bar>?x\<bar>" "\<bar>?x\<bar> < pow2 (1024 + 1)" by (simp_all add: pow2_def)
  have "?x = real_of_int (3 * 2 ^ 51) * pow2 (max (1024 - 52) (- 1074))"
    by (simp add: pow2_def)
  from round_double_exact [OF b this] show ?thesis
    by (simp add: float_mul_def)
qed

lemma float_mul_one_2: "float_mul 1 2 = Some 2"
proof -
  have "float_mul 1 2 = Some (1 * 2)"
    by (rule float_mul_exact [where k = 1 and m = 4503599627370496]) (simp_all add: pow2_def)
  then show ?thesis by simp
qed

lemma float_mul_one_49: "float_mul 1 49 = Some 49"
proof -
  have "float_mul 1 49 = Some (1 * 49)"
    by (rule float_mul_exact [where k = 5 and m = 6896136929411072]) (simp_all add: pow2_def)
  then show ?thesis by simp
qed

subsection \<open>The window in double precision\<close>


lemma num_points_in_window_double_eq:
  "num_points_in_window_double b n =
     (case float_mul b (real n) of None \<Rightarrow> Inl OverflowError
      | Some v \<Rightarrow> Inr (min (int n) (max 2 \<lceil>v\<rceil>)))"
  unfolding num_points_in_window_double_def Let_def min_def max_def
  by (auto split: option.splits)

text \<open>Where the product of the bandwidth and the length is exact, and the solver raises on
  every singular system, the refinement is the exact reading.\<close>

lemma num_points_in_window_double_exact:
  assumes "float_mul b (real n) = Some (b * real n)"
  shows "num_points_in_window_double b n = Inr (num_points_in_window b n)"
  using assms by (simp add: num_points_in_window_double_eq num_points_in_window_eq)

lemma loess_1d_double_exact:
  assumes "float_mul b (real (length x)) = Some (b * real (length x))"
  shows "loess_1d_double solve2 y x points b = loess_1d y x points b"
proof -
  have w: "loess_window_double xs ys (length x) b p = loess_window xs ys (length x) b p" for xs ys p
    by (simp add: loess_window_double_def loess_window_def nearest_indices_double_def
        nearest_indices_def num_points_in_window_double_exact [OF assms] Let_def)
  have f: "local_fit_with solve2 = local_fit"
    by (intro ext) (simp add: local_fit_with_def local_fit_def)
  have "loess_point_double solve2 xs ys (length x) b = loess_point xs ys (length x) b" for xs ys
    by (intro ext) (simp add: loess_point_double_def loess_point_def w f)
  then show ?thesis
    by (simp add: loess_1d_double_def loess_1d_def)
qed

lemma set_slice_to_argsort:
  "set (slice_to (argsort (map f x_sorted)) w) \<subseteq> {..<length x_sorted}"
proof -
  have "set (slice_to (argsort (map f x_sorted)) w) \<subseteq> set (argsort (map f x_sorted))"
    unfolding slice_to_def by (auto dest: in_set_takeD)
  then show ?thesis by (simp add: set_argsort)
qed

lemma loess_window_double_Inl:
  assumes "float_mul b (real n) = None"
  shows "loess_window_double x_sorted y_sorted n b p = Inl OverflowError"
  using assms
  by (simp add: loess_window_double_def nearest_indices_double_def num_points_in_window_double_eq)

lemma loess_window_double_Inr:
  assumes "length y_sorted = length x_sorted" "float_mul b (real n) = Some v"
  shows "loess_window_double x_sorted y_sorted n b p =
         Inr (map (\<lambda>i. x_sorted ! i)
                (slice_to (argsort (map (\<lambda>v. \<bar>v - p\<bar>) x_sorted)) (min (int n) (max 2 \<lceil>v\<rceil>))),
              map (\<lambda>i. y_sorted ! i)
                (slice_to (argsort (map (\<lambda>v. \<bar>v - p\<bar>) x_sorted)) (min (int n) (max 2 \<lceil>v\<rceil>))),
              map (\<lambda>i. \<bar>x_sorted ! i - p\<bar>)
                (slice_to (argsort (map (\<lambda>v. \<bar>v - p\<bar>) x_sorted)) (min (int n) (max 2 \<lceil>v\<rceil>))))"
proof -
  let ?ni = "slice_to (argsort (map (\<lambda>v. \<bar>v - p\<bar>) x_sorted)) (min (int n) (max 2 \<lceil>v\<rceil>))"
  have n: "nearest_indices_double x_sorted n b p = Inr ?ni"
    using assms(2) by (simp add: nearest_indices_double_def num_points_in_window_double_eq)
  have s: "set ?ni \<subseteq> {..<length x_sorted}" by (rule set_slice_to_argsort)
  have 1: "fancy_index x_sorted ?ni = Inr (map (\<lambda>i. x_sorted ! i) ?ni)"
    using s by (rule fancy_index_Inr)
  have 2: "fancy_index y_sorted ?ni = Inr (map (\<lambda>i. y_sorted ! i) ?ni)"
    using s assms(1) by (intro fancy_index_Inr) simp
  have 3: "fancy_index (map (\<lambda>v. \<bar>v - p\<bar>) x_sorted) ?ni
           = Inr (map (\<lambda>i. map (\<lambda>v. \<bar>v - p\<bar>) x_sorted ! i) ?ni)"
    using s by (intro fancy_index_Inr) simp
  have 4: "map (\<lambda>i. map (\<lambda>v. \<bar>v - p\<bar>) x_sorted ! i) ?ni = map (\<lambda>i. \<bar>x_sorted ! i - p\<bar>) ?ni"
    using s by (intro map_cong) auto
  show ?thesis
    unfolding loess_window_double_def Let_def by (simp add: n 1 2 3 4)
qed

lemma length_slice_to_argsort:
  assumes "length x_sorted = n" "1 \<le> n"
  shows "int (length (slice_to (argsort (map f x_sorted)) (min (int n) (max 2 c)))) =
         min (int n) (max 2 c)"
  using assms by (auto simp: slice_to_def length_argsort)

lemma loess_window_double_total:
  assumes "length y_sorted = length x_sorted" "length x_sorted = n" "1 \<le> n"
    "float_mul b (real n) = Some v"
  shows "\<exists>xw yw dw. loess_window_double x_sorted y_sorted n b p = Inr (xw, yw, dw) \<and>
           length yw = length xw \<and> length dw = length xw \<and>
           int (length xw) = min (int n) (max 2 \<lceil>v\<rceil>)"
  using length_slice_to_argsort [OF assms(2,3), of "\<lambda>v. \<bar>v - p\<bar>" "\<lceil>v\<rceil>"]
  by (simp add: loess_window_double_Inr [OF assms(1,4)])

text \<open>
  Claim C4, amended (LOESS window size). For \<open>n \<ge> 1\<close> observations, a bandwidth \<open>b\<close> and
  every query point, let \<open>v\<close> be the product of \<open>b\<close> and \<open>n\<close> as the code computes it, in
  double precision. The window holds \<open>min(n, max(2, ceil(v)))\<close> observations: the ceiling
  is taken of the rounded product, and the bound \<open>n\<close> is applied last. This is
  \<open>max(2, min(n, ceil(v)))\<close> whenever \<open>n \<ge> 2\<close>. When the product overflows to an infinity,
  the conversion to \<open>int\<close> raises OverflowError and no window is formed.
\<close>

theorem loess_window_size:
  assumes "x \<noteq> []" "length y = length x"
  shows "\<exists>x_sorted y_sorted.
     fancy_index x (argsort x) = Inr x_sorted \<and> fancy_index y (argsort x) = Inr y_sorted \<and>
     (float_mul b (real (length x)) = None \<longrightarrow>
        loess_window_double x_sorted y_sorted (length x) b p = Inl OverflowError) \<and>
     (\<forall>v. float_mul b (real (length x)) = Some v \<longrightarrow>
        (\<exists>xw yw dw.
           loess_window_double x_sorted y_sorted (length x) b p = Inr (xw, yw, dw) \<and>
           length yw = length xw \<and> length dw = length xw \<and>
           int (length xw) = min (int (length x)) (max 2 \<lceil>v\<rceil>) \<and>
           (2 \<le> length x \<longrightarrow> int (length xw) = max 2 (min (int (length x)) \<lceil>v\<rceil>))))"
proof -
  let ?xs = "map (\<lambda>i. x ! i) (argsort x)"
  let ?ys = "map (\<lambda>i. y ! i) (argsort x)"
  have n: "1 \<le> length x" using assms(1) by (simp add: Suc_le_eq)
  have len: "length ?ys = length ?xs" "length ?xs = length x" by (simp_all add: length_argsort)
  have some: "\<exists>xw yw dw.
           loess_window_double ?xs ?ys (length x) b p = Inr (xw, yw, dw) \<and>
           length yw = length xw \<and> length dw = length xw \<and>
           int (length xw) = min (int (length x)) (max 2 \<lceil>v\<rceil>) \<and>
           (2 \<le> length x \<longrightarrow> int (length xw) = max 2 (min (int (length x)) \<lceil>v\<rceil>))"
    if v: "float_mul b (real (length x)) = Some v" for v
  proof -
    from loess_window_double_total [OF len n v, of p] obtain xw yw dw where
      w: "loess_window_double ?xs ?ys (length x) b p = Inr (xw, yw, dw)"
      "length yw = length xw" "length dw = length xw"
      "int (length xw) = min (int (length x)) (max 2 \<lceil>v\<rceil>)" by blast
    from w(4) have "int (length xw) = max 2 (min (int (length x)) \<lceil>v\<rceil>)"
      if "2 \<le> length x" using that by linarith
    with w show ?thesis by blast
  qed
  have none: "loess_window_double ?xs ?ys (length x) b p = Inl OverflowError"
    if "float_mul b (real (length x)) = None"
    using that by (rule loess_window_double_Inl)
  have "fancy_index x (argsort x) = Inr ?xs \<and> fancy_index y (argsort x) = Inr ?ys \<and>
     (float_mul b (real (length x)) = None \<longrightarrow>
        loess_window_double ?xs ?ys (length x) b p = Inl OverflowError) \<and>
     (\<forall>v. float_mul b (real (length x)) = Some v \<longrightarrow>
        (\<exists>xw yw dw.
           loess_window_double ?xs ?ys (length x) b p = Inr (xw, yw, dw) \<and>
           length yw = length xw \<and> length dw = length xw \<and>
           int (length xw) = min (int (length x)) (max 2 \<lceil>v\<rceil>) \<and>
           (2 \<le> length x \<longrightarrow> int (length xw) = max 2 (min (int (length x)) \<lceil>v\<rceil>))))"
    using some none loess_sorted_Inr [OF assms(2)] by (intro conjI allI impI)
  then show ?thesis by (intro exI)
qed

theorem loess_window_size_witness:
  "(\<exists>x_sorted y_sorted xw yw dw.
     fancy_index [0, 1, 2] (argsort [0, 1, 2]) = Inr x_sorted \<and>
     fancy_index [5, 6, 7] (argsort [0, 1, 2]) = Inr y_sorted \<and>
     float_mul (1 / 2) (real (length [0, 1, 2 :: real])) = Some (3 / 2) \<and>
     loess_window_double x_sorted y_sorted 3 (1 / 2) 1 = Inr (xw, yw, dw) \<and>
     length xw = 2 \<and> length yw = 2 \<and> length dw = 2) \<and>
   (\<exists>x_sorted y_sorted.
     fancy_index [0, 1, 2] (argsort [0, 1, 2]) = Inr x_sorted \<and>
     fancy_index [5, 6, 7] (argsort [0, 1, 2]) = Inr y_sorted \<and>
     float_mul (2 ^ 1023) (real (length [0, 1, 2 :: real])) = None \<and>
     loess_window_double x_sorted y_sorted 3 (2 ^ 1023) 1 = Inl OverflowError)"
proof -
  have h: "[0, 1, 2 :: real] \<noteq> []" "length [5, 6, 7 :: real] = length [0, 1, 2 :: real]"
    by simp_all
  have l: "length [0, 1, 2 :: real] = 3" by simp
  have f: "float_mul (1 / 2) (real (length [0, 1, 2 :: real])) = Some (3 / 2)"
    using float_mul_half_3 by simp
  have g: "float_mul (2 ^ 1023) (real (length [0, 1, 2 :: real])) = None"
    using float_mul_huge_3 by simp
  have c: "\<lceil>3 / 2 :: real\<rceil> = 2" by (simp add: ceiling_eq_iff)
  from loess_window_size [OF h, of "1 / 2" 1] f obtain x_sorted y_sorted xw yw dw where w:
    "fancy_index [0, 1, 2] (argsort [0, 1, 2]) = Inr x_sorted"
    "fancy_index [5, 6, 7] (argsort [0, 1, 2]) = Inr y_sorted"
    "loess_window_double x_sorted y_sorted (length [0, 1, 2 :: real]) (1 / 2) 1 = Inr (xw, yw, dw)"
    "length yw = length xw" "length dw = length xw"
    "int (length xw) = min (int (length [0, 1, 2 :: real])) (max 2 \<lceil>3 / 2 :: real\<rceil>)"
    by blast
  from w(6) have "length xw = 2" unfolding c by simp
  with w(1-5) f have 1: "\<exists>x_sorted y_sorted xw yw dw.
     fancy_index [0, 1, 2] (argsort [0, 1, 2]) = Inr x_sorted \<and>
     fancy_index [5, 6, 7] (argsort [0, 1, 2]) = Inr y_sorted \<and>
     float_mul (1 / 2) (real (length [0, 1, 2 :: real])) = Some (3 / 2) \<and>
     loess_window_double x_sorted y_sorted 3 (1 / 2) 1 = Inr (xw, yw, dw) \<and>
     length xw = 2 \<and> length yw = 2 \<and> length dw = 2"
    unfolding l by metis
  from loess_window_size [OF h, of "2 ^ 1023" 1] g obtain x_sorted y_sorted where v:
    "fancy_index [0, 1, 2] (argsort [0, 1, 2]) = Inr x_sorted"
    "fancy_index [5, 6, 7] (argsort [0, 1, 2]) = Inr y_sorted"
    "loess_window_double x_sorted y_sorted (length [0, 1, 2 :: real]) (2 ^ 1023) 1 = Inl OverflowError"
    by blast
  with g have 2: "\<exists>x_sorted y_sorted.
     fancy_index [0, 1, 2] (argsort [0, 1, 2]) = Inr x_sorted \<and>
     fancy_index [5, 6, 7] (argsort [0, 1, 2]) = Inr y_sorted \<and>
     float_mul (2 ^ 1023) (real (length [0, 1, 2 :: real])) = None \<and>
     loess_window_double x_sorted y_sorted 3 (2 ^ 1023) 1 = Inl OverflowError"
    unfolding l by metis
  from 1 2 show ?thesis by (rule conjI)
qed

text \<open>The count \<open>max(2, min(n, ceil(b * n)))\<close> fails in three ways. With one observation
  the window holds 1 point, not 2. With three observations and the bandwidth
  \<open>0.6666666666666667\<close> the exact product is above 2, so its ceiling is 3, but the product
  of the doubles is 2.0 and the window holds 2 points; likewise the bandwidth \<open>0.1\<close> on 20
  observations gives 2 points, not 3. With the bandwidth \<open>2\<^sup>1\<^sup>0\<^sup>2\<^sup>3\<close> on three observations
  the product is an infinity and there is no window.\<close>

theorem loess_window_size_counterexample:
  "loess_window_double [0] [5] (length [0 :: real]) 1 0 = Inr ([0], [5], [0]) \<and>
   max 2 (min (int (length [0 :: real])) \<lceil>1 * real (length [0 :: real])\<rceil>) = 2 \<and>
   float_mul (3002399751580331 / 2 ^ 52) (real (length [0, 1, 2 :: real])) = Some 2 \<and>
   loess_window_double [0, 1, 2] [5, 6, 7] (length [0, 1, 2 :: real])
     (3002399751580331 / 2 ^ 52) (3 / 4) = Inr ([1, 0], [6, 5], [1 / 4, 3 / 4]) \<and>
   max 2 (min (int (length [0, 1, 2 :: real]))
     \<lceil>3002399751580331 / 2 ^ 52 * real (length [0, 1, 2 :: real])\<rceil>) = 3 \<and>
   num_points_in_window_double (3602879701896397 / 2 ^ 55) 20 = Inr 2 \<and>
   max 2 (min 20 \<lceil>3602879701896397 / 2 ^ 55 * real (20 :: nat)\<rceil>) = 3 \<and>
   loess_window_double [0, 1, 2] [5, 6, 7] (length [0, 1, 2 :: real]) (2 ^ 1023) 1
     = Inl OverflowError"
proof -
  have a1: "argsort [0] = [0]" by (simp add: argsort_def)
  have w1: "loess_window_double [0] [5] (length [0 :: real]) 1 0 = Inr ([0], [5], [0])"
    using float_mul_one_1
    by (simp add: loess_window_double_def nearest_indices_double_def
        num_points_in_window_double_eq slice_to_def a1 fancy_index_def Let_def)
  have m1: "max 2 (min (int (length [0 :: real])) \<lceil>1 * real (length [0 :: real])\<rceil>) = 2"
    by simp
  have f3: "float_mul (3002399751580331 / 2 ^ 52) (real (length [0, 1, 2 :: real])) = Some 2"
    using float_mul_two_thirds_3 by simp
  have a3: "argsort [3 / 4, 1 / 4, 5 / 4] = [1, 0, 2]" by (simp add: argsort_def)
  have n3: "nearest_indices_double [0, 1, 2] (length [0, 1, 2 :: real])
      (3002399751580331 / 2 ^ 52) (3 / 4) = Inr [1, 0]"
    unfolding nearest_indices_double_def num_points_in_window_double_eq f3
    by (simp add: a3 slice_to_def)
  have w3: "loess_window_double [0, 1, 2] [5, 6, 7] (length [0, 1, 2 :: real])
     (3002399751580331 / 2 ^ 52) (3 / 4) = Inr ([1, 0], [6, 5], [1 / 4, 3 / 4])"
    unfolding loess_window_double_def Let_def n3 by (simp add: fancy_index_def)
  have c3: "\<lceil>3002399751580331 / 2 ^ 52 * 3 :: real\<rceil> = 3"
    by (simp add: ceiling_eq_iff)
  have m3: "max 2 (min (int (length [0, 1, 2 :: real]))
     \<lceil>3002399751580331 / 2 ^ 52 * real (length [0, 1, 2 :: real])\<rceil>) = 3"
    using c3 by simp
  have n20: "num_points_in_window_double (3602879701896397 / 2 ^ 55) 20 = Inr 2"
    using float_mul_tenth_20 by (simp add: num_points_in_window_double_eq)
  have c20: "\<lceil>3602879701896397 / 2 ^ 55 * 20 :: real\<rceil> = 3"
    by (simp add: ceiling_eq_iff)
  have m20: "max 2 (min 20 \<lceil>3602879701896397 / 2 ^ 55 * real (20 :: nat)\<rceil>) = 3"
    using c20 by simp
  have "float_mul (2 ^ 1023) (real (length [0, 1, 2 :: real])) = None"
    using float_mul_huge_3 by simp
  then have o: "loess_window_double [0, 1, 2] [5, 6, 7] (length [0, 1, 2 :: real]) (2 ^ 1023) 1
     = Inl OverflowError"
    by (rule loess_window_double_Inl)
  from w1 m1 f3 w3 m3 n20 m20 o show ?thesis by (intro conjI)
qed

subsection \<open>The solver on a singular system\<close>


lemma loess_point_double_eq:
  assumes "loess_window_double x_sorted y_sorted n b p = Inr (xw, yw, dw)"
    "loess_weights dw = Inr weights"
  shows "loess_point_double s x_sorted y_sorted n b p =
    Inr (case s (XTWX weights xw) (XTWY weights xw yw) of
           None \<Rightarrow> if sum_list weights < 1 / 10 ^ 9 then np_mean yw
                   else sum_list (map2 (\<lambda>w y. w * y) weights yw) / sum_list weights
         | Some (a, b) \<Rightarrow> a + b * p)"
  using assms
  by (simp add: loess_point_double_def local_fit_with_def split: option.splits prod.splits)

lemma loess_1d_double_nonempty:
  assumes "x \<noteq> []" "length y = length x"
  shows "loess_1d_double s y x points b =
    map_err (loess_point_double s (map (\<lambda>i. x ! i) (argsort x)) (map (\<lambda>i. y ! i) (argsort x))
      (length x) b) points"
  using assms by (simp add: loess_1d_double_def loess_sorted_Inr Let_def)

text \<open>
  Claim C5 (singular-system fallback), at the observations \<open>x = [0, 1]\<close>, \<open>y = [0, 1]\<close>, the
  query point 4 and the bandwidth 1. The window is \<open>x = [1, 0]\<close> at the distances \<open>[3, 4]\<close>,
  with the tricube weights \<open>[w, 0]\<close>, \<open>w = 50653 / 262144\<close>. The normal-equations matrix is
  \<open>[[w, w], [w, w]]\<close>, which is singular, and the right-hand side is \<open>[w, w]\<close>. The
  fallback of the claim is the weighted mean of the window, 1, with slope 0. \<open>loess_1d\<close>
  returns it only if \<open>np.linalg.solve\<close> raises on this system; whatever solution the solver
  returns instead is taken as the local line and evaluated at the query point.
\<close>

theorem loess_singular_estimate:
  "loess_window_double [0, 1] [0, 1] 2 1 4 = Inr ([1, 0], [1, 0], [3, 4]) \<and>
   loess_weights [3, 4] = Inr [50653 / 262144, 0] \<and>
   XTWX [50653 / 262144, 0] [1, 0] =
     (50653 / 262144, 50653 / 262144, 50653 / 262144, 50653 / 262144) \<and>
   XTWY [50653 / 262144, 0] [1, 0] [1, 0] = (50653 / 262144, 50653 / 262144) \<and>
   singular2 (XTWX [50653 / 262144, 0] [1, 0]) \<and>
   weighted_mean [50653 / 262144, 0] [1, 0] = 1 \<and>
   loess_1d_double linalg_solve [0, 1] [0, 1] [4] 1 =
     Inr [case linalg_solve
                 (50653 / 262144, 50653 / 262144, 50653 / 262144, 50653 / 262144)
                 (50653 / 262144, 50653 / 262144) of
            None \<Rightarrow> 1
          | Some (a, b) \<Rightarrow> a + b * 4]"
proof -
  let ?w = "50653 / 262144 :: real"
  have a: "argsort [0, 1] = [0, 1]" by (simp add: argsort_def)
  have ad: "argsort [4, 3] = [1, 0]" by (simp add: argsort_def)
  have l: "length [0, 1 :: real] = 2" by simp
  have ni: "nearest_indices_double [0, 1] 2 1 4 = Inr [1, 0]"
    unfolding nearest_indices_double_def num_points_in_window_double_eq
    using float_mul_one_2 by (simp add: ad slice_to_def)
  have w: "loess_window_double [0, 1] [0, 1] 2 1 4 = Inr ([1, 0], [1, 0], [3, 4])"
    unfolding loess_window_double_def Let_def ni by (simp add: fancy_index_def)
  have lw: "loess_weights [3, 4] = Inr [?w, 0]"
    by (simp add: loess_weights_def window_weights_def power3_eq_cube)
  have m: "XTWX [?w, 0] [1, 0] = (?w, ?w, ?w, ?w)" by (simp add: XTWX_def)
  have t: "XTWY [?w, 0] [1, 0] [1, 0] = (?w, ?w)" by (simp add: XTWY_def)
  have s: "singular2 (XTWX [?w, 0] [1, 0])" unfolding m by (simp add: singular2_def)
  have wm: "weighted_mean [?w, 0] [1, 0] = 1" by (simp add: weighted_mean_def)
  have "loess_point_double linalg_solve [0, 1] [0, 1] 2 1 4 =
     Inr (case linalg_solve (?w, ?w, ?w, ?w) (?w, ?w) of None \<Rightarrow> 1 | Some (a, b) \<Rightarrow> a + b * 4)"
    unfolding loess_point_double_eq [OF w lw] m t by (simp split: option.splits)
  then have "loess_point_double linalg_solve [0, 1] [0, 1] (Suc (Suc 0)) 1 4 =
     Inr (case linalg_solve (?w, ?w, ?w, ?w) (?w, ?w) of None \<Rightarrow> 1 | Some (a, b) \<Rightarrow> a + b * 4)"
    by (simp only: numeral_2_eq_2)
  then have "loess_1d_double linalg_solve [0, 1] [0, 1] [4] 1 =
     Inr [case linalg_solve (?w, ?w, ?w, ?w) (?w, ?w) of None \<Rightarrow> 1 | Some (a, b) \<Rightarrow> a + b * 4]"
    by (simp add: loess_1d_double_def a fancy_index_def)
  with w lw m t s wm show ?thesis by (intro conjI)
qed

text \<open>With a solver that returns the solution \<open>(0, 1)\<close> of the singular system the estimate
  is 4; with a solver that raises it is the weighted mean 1.\<close>

theorem loess_singular_estimate_witness:
  "loess_1d_double (\<lambda>m t. Some (0, 1)) [0, 1] [0, 1] [4] 1 = Inr [4] \<and>
   loess_1d_double solve2 [0, 1] [0, 1] [4] 1 = Inr [1]"
proof -
  have "solve2 (50653 / 262144, 50653 / 262144, 50653 / 262144, 50653 / 262144)
          (50653 / 262144, 50653 / 262144) = None"
    by (simp add: solve2_def singular2_def)
  with loess_singular_estimate [of "\<lambda>m t. Some (0, 1)"] loess_singular_estimate [of solve2]
  show ?thesis by simp
qed

text \<open>
  \<open>np.linalg.solve\<close> does not raise on this system. It factorises the matrix by Gaussian
  elimination with row pivoting in double precision (LAPACK's \<open>dgesv\<close>) and raises only when
  a pivot is exactly zero. The elimination multiplies the entry below the pivot \<open>w\<close> by the
  rounded reciprocal of the pivot: the multiplier is \<open>1 - 2\<^sup>-\<^sup>5\<^sup>3\<close>, not 1, and the second
  pivot, \<open>w\<close> minus the rounded product of the multiplier and \<open>w\<close>, is \<open>2\<^sup>-\<^sup>5\<^sup>5\<close>, not 0. The
  right-hand side leaves the same \<open>2\<^sup>-\<^sup>5\<^sup>5\<close>, so the slope is 1 and the intercept 0. Where the
  subtraction is fused with the product, the second pivot is \<open>w / 2\<^sup>5\<^sup>3\<close>, not 0 either.
\<close>

lemma recip_w: "round_double (1 / (50653 / 262144)) = 5826859320856668 / 2 ^ 50"
proof -
  have "round_double (1 / (50653 / 262144)) = real_of_int 5826859320856668 * pow2 (max (2 - 52) (- 1074))"
    by (rule round_double_near) (simp_all add: pow2_def)
  then show ?thesis by (simp add: pow2_def)
qed

lemma mult_w: "round_double (50653 / 262144 * (5826859320856668 / 2 ^ 50)) = 1 - 1 / 2 ^ 53"
proof -
  have "round_double (50653 / 262144 * (5826859320856668 / 2 ^ 50))
      = real_of_int 9007199254740991 * pow2 (max (- 1 - 52) (- 1074))"
    by (rule round_double_near) (simp_all add: pow2_def)
  then show ?thesis by (simp add: pow2_def)
qed

lemma elim_w: "round_double ((1 - 1 / 2 ^ 53) * (50653 / 262144)) = 50653 / 262144 - 1 / 2 ^ 55"
proof -
  have "round_double ((1 - 1 / 2 ^ 53) * (50653 / 262144))
      = real_of_int 6961695310217215 * pow2 (max (- 3 - 52) (- 1074))"
    by (rule round_double_near) (simp_all add: pow2_def)
  then show ?thesis by (simp add: pow2_def)
qed

lemma round_double_2_55: "round_double (1 / 2 ^ 55) = 1 / 2 ^ 55"
  by (rule round_double_exact [where k = "- 55" and m = 4503599627370496])
    (simp_all add: pow2_def)

lemma round_double_one: "round_double 1 = 1"
  by (rule round_double_exact [where k = 0 and m = 4503599627370496]) (simp_all add: pow2_def)

lemma round_double_w: "round_double (50653 / 262144) = 50653 / 262144"
  by (rule round_double_exact [where k = "- 3" and m = 6961695310217216]) (simp_all add: pow2_def)

lemma reciprocal_pivot_weight:
  "round_double (50653 / 262144
     - round_double (round_double (50653 / 262144 * round_double (1 / (50653 / 262144)))
         * (50653 / 262144))) = 1 / 2 ^ 55 \<and>
   round_double (1 / 2 ^ 55 / (1 / 2 ^ 55)) = 1 \<and>
   round_double (50653 / 262144 - round_double (50653 / 262144 * 1)) = 0"
proof -
  have "round_double (50653 / 262144
     - round_double (round_double (50653 / 262144 * round_double (1 / (50653 / 262144)))
         * (50653 / 262144))) = 1 / 2 ^ 55"
    unfolding recip_w mult_w elim_w using round_double_2_55 by simp
  then show ?thesis
    by (simp add: round_double_one round_double_w round_double_zero)
qed

lemma fused_pivot_weight:
  "round_double (50653 / 262144
     - round_double (50653 / 262144 * round_double (1 / (50653 / 262144))) * (50653 / 262144))
   = 50653 / 262144 / 2 ^ 53"
proof -
  have "round_double (50653 / 262144 - (1 - 1 / 2 ^ 53) * (50653 / 262144))
      = 50653 / 262144 - (1 - 1 / 2 ^ 53) * (50653 / 262144)"
    by (rule round_double_exact [where k = "- 56" and m = 6961695310217216])
      (simp_all add: pow2_def)
  then show ?thesis unfolding recip_w mult_w by simp
qed

lemma XTWX_replicate:
  "XTWX (replicate n w) (replicate n c) =
     (real n * w, real n * (w * c), real n * (c * w), real n * (c * w * c))"
  by (simp add: XTWX_def map2_replicate_left sum_list_replicate_real)

lemma XTWY_replicate:
  assumes "length yw = n"
  shows "XTWY (replicate n w) (replicate n c) yw = (w * sum_list yw, c * w * sum_list yw)"
proof -
  have z: "zip (replicate n w) (replicate n c) = replicate n (w, c)"
    by (induction n) simp_all
  show ?thesis
    using assms by (simp add: XTWY_def z map2_replicate_left sum_list_const_mult)
qed

lemma loess_point_double_constant_x:
  assumes "length y_sorted = n" "0 < n" "float_mul b (real n) = Some v" "int n \<le> max 2 \<lceil>v\<rceil>"
  shows "loess_point_double s (replicate n c) y_sorted n b p =
    Inr (case s (real n * (if \<bar>c - p\<bar> < 1 / 10 ^ 9 then 1 else 0),
                 real n * ((if \<bar>c - p\<bar> < 1 / 10 ^ 9 then 1 else 0) * c),
                 real n * (c * (if \<bar>c - p\<bar> < 1 / 10 ^ 9 then 1 else 0)),
                 real n * (c * (if \<bar>c - p\<bar> < 1 / 10 ^ 9 then 1 else 0) * c))
                ((if \<bar>c - p\<bar> < 1 / 10 ^ 9 then 1 else 0) * sum_list y_sorted,
                 c * (if \<bar>c - p\<bar> < 1 / 10 ^ 9 then 1 else 0) * sum_list y_sorted) of
           None \<Rightarrow> np_mean y_sorted
         | Some (a, b) \<Rightarrow> a + b * p)"
proof -
  let ?xs = "replicate n c"
  let ?ds = "map (\<lambda>v. \<bar>v - p\<bar>) ?xs"
  let ?ni = "argsort ?ds"
  let ?yw = "map (\<lambda>i. y_sorted ! i) ?ni"
  let ?w = "if \<bar>c - p\<bar> < 1 / 10 ^ 9 then 1 else (0::real)"
  have full: "min (int n) (max 2 \<lceil>v\<rceil>) = int n" using assms(4) by simp
  have ni: "slice_to ?ni (min (int n) (max 2 \<lceil>v\<rceil>)) = ?ni"
    unfolding full by (simp add: slice_to_def length_argsort)
  have lni: "length ?ni = n" by (simp add: length_argsort)
  have sni: "set ?ni = {..<n}" by (simp add: set_argsort)
  have xw: "map (\<lambda>i. ?xs ! i) ?ni = replicate n c"
    using map_const_replicate [of ?ni "\<lambda>i. ?xs ! i" c] sni lni by simp
  have dw: "map (\<lambda>i. \<bar>?xs ! i - p\<bar>) ?ni = replicate n \<bar>c - p\<bar>"
    using map_const_replicate [of ?ni "\<lambda>i. \<bar>?xs ! i - p\<bar>" "\<bar>c - p\<bar>"] sni lni by simp
  have "length y_sorted = length ?xs" using assms(1) by simp
  from loess_window_double_Inr [OF this assms(3), of p]
  have w: "loess_window_double ?xs y_sorted n b p = Inr (replicate n c, ?yw, replicate n \<bar>c - p\<bar>)"
    by (simp only: ni xw dw)
  have lw: "loess_weights (replicate n \<bar>c - p\<bar>) = Inr (replicate n ?w)"
    using assms(2) by (intro loess_weights_replicate) simp_all
  have lyw: "length ?yw = n" using lni by (simp only: length_map)
  have sy: "sum_list ?yw = sum_list y_sorted"
    using assms(1) by (intro sum_list_argsort) simp
  have my: "np_mean ?yw = np_mean y_sorted"
    using assms(1) by (intro np_mean_argsort) simp
  have fb: "(if sum_list (replicate n ?w) < 1 / 10 ^ 9 then np_mean ?yw
             else sum_list (map2 (\<lambda>w y. w * y) (replicate n ?w) ?yw) / sum_list (replicate n ?w))
            = np_mean y_sorted"
  proof (cases "\<bar>c - p\<bar> < 1 / 10 ^ 9")
    case True
    have "real n \<ge> 1" using assms(2) by simp
    then have "\<not> real n < 1 / 10 ^ 9" by simp
    moreover have "map ((*) 1) zs = zs" for zs :: "real list" by (simp add: map_idI)
    then have "sum_list (map2 (\<lambda>w y. w * y) (replicate n 1) ?yw) = sum_list y_sorted"
      unfolding map2_replicate_left [OF lyw] using sy by (simp only:)
    ultimately show ?thesis
      using True assms(1) by (simp add: sum_list_replicate_real np_mean_def)
  next
    case False
    from my have "np_mean (map (\<lambda>i. y_sorted ! i) (argsort (replicate n \<bar>c - p\<bar>))) = np_mean y_sorted"
      by simp
    with False show ?thesis by (simp add: sum_list_replicate_real)
  qed
  show ?thesis
    unfolding loess_point_double_eq [OF w lw] fb XTWX_replicate XTWY_replicate [OF lyw] sy ..
qed

lemma argsort_replicate_index:
  "map (\<lambda>i. replicate n c ! i) (argsort (replicate n d)) = replicate n c"
  using map_const_replicate [of "argsort (replicate n d)" "\<lambda>i. replicate n c ! i" c]
  by (simp add: set_argsort length_argsort)

text \<open>
  Claim C6 (constant x gives the mean), at 49 observations with \<open>x = 2\<^sup>-\<^sup>3\<^sup>1\<close> and \<open>y = 1\<close>,
  the query points 0 and \<open>2\<^sup>-\<^sup>3\<^sup>1\<close>, and the bandwidth 1. The window spans all 49
  observations, and both query points lie within \<open>1e-9\<close> of the common x, so every weight
  is 1. With \<open>c = 2\<^sup>-\<^sup>3\<^sup>1\<close> the normal equations are \<open>[[49, 49c], [49c, 49c\<^sup>2]] [a, b] = [49, 49c]\<close>;
  the matrix is singular, and the mean of y, weighted or plain, is 1. \<open>loess_1d\<close> returns
  the mean at a query point only if \<open>np.linalg.solve\<close> raises there; a solution \<open>(a, b)\<close>
  that the solver returns gives \<open>a + b * p\<close>, which changes with the query point \<open>p\<close> when
  \<open>b\<close> is not 0.
\<close>

theorem loess_constant_x_estimate:
  "singular2 (49, 49 / 2 ^ 31, 49 / 2 ^ 31, 49 / 2 ^ 62) \<and>
   np_mean (replicate 49 1) = 1 \<and>
   weighted_mean (replicate 49 1) (replicate 49 1) = 1 \<and>
   loess_1d_double linalg_solve (replicate 49 1) (replicate 49 (1 / 2 ^ 31)) [0, 1 / 2 ^ 31] 1 =
     Inr [case linalg_solve (49, 49 / 2 ^ 31, 49 / 2 ^ 31, 49 / 2 ^ 62) (49, 49 / 2 ^ 31) of
            None \<Rightarrow> 1
          | Some (a, b) \<Rightarrow> a + b * 0,
          case linalg_solve (49, 49 / 2 ^ 31, 49 / 2 ^ 31, 49 / 2 ^ 62) (49, 49 / 2 ^ 31) of
            None \<Rightarrow> 1
          | Some (a, b) \<Rightarrow> a + b * (1 / 2 ^ 31)]"
proof -
  let ?c = "1 / 2 ^ 31 :: real"
  let ?x = "replicate 49 ?c"
  let ?y = "replicate 49 1 :: real list"
  let ?M = "(49, 49 / 2 ^ 31, 49 / 2 ^ 31, 49 / 2 ^ 62) :: real \<times> real \<times> real \<times> real"
  let ?t = "(49, 49 / 2 ^ 31) :: real \<times> real"
  have s: "singular2 ?M" by (simp add: singular2_def)
  have m: "np_mean ?y = 1" by (simp add: np_mean_def sum_list_replicate_real)
  have wm: "weighted_mean ?y ?y = 1"
    by (simp add: weighted_mean_def map2_replicate_left sum_list_replicate_real)
  have h: "?x \<noteq> []" "length ?y = length ?x" by simp_all
  have xs: "map (\<lambda>i. ?x ! i) (argsort ?x) = ?x" by (rule argsort_replicate_index)
  have ys: "map (\<lambda>i. ?y ! i) (argsort ?x) = ?y" by (rule argsort_replicate_index)
  have f: "float_mul 1 (real (49 :: nat)) = Some 49" using float_mul_one_49 by simp
  have full: "int 49 \<le> max 2 \<lceil>49 :: real\<rceil>" by simp
  have ly: "length ?y = 49" by simp
  have c: "\<bar>?c - 0\<bar> < 1 / 10 ^ 9" "\<bar>?c - ?c\<bar> < 1 / 10 ^ 9" by simp_all
  have sy: "sum_list ?y = 49" by (simp add: sum_list_replicate_real)
  have p: "loess_point_double linalg_solve ?x ?y 49 1 p =
      Inr (case linalg_solve ?M ?t of None \<Rightarrow> 1 | Some (a, b) \<Rightarrow> a + b * p)"
    if "\<bar>?c - p\<bar> < 1 / 10 ^ 9" for p
  proof -
    have e: "(real (49 :: nat) * (if \<bar>?c - p\<bar> < 1 / 10 ^ 9 then 1 else 0),
                 real (49 :: nat) * ((if \<bar>?c - p\<bar> < 1 / 10 ^ 9 then 1 else 0) * ?c),
                 real (49 :: nat) * (?c * (if \<bar>?c - p\<bar> < 1 / 10 ^ 9 then 1 else 0)),
                 real (49 :: nat) * (?c * (if \<bar>?c - p\<bar> < 1 / 10 ^ 9 then 1 else 0) * ?c)) = ?M"
      using that by simp
    have t: "((if \<bar>?c - p\<bar> < 1 / 10 ^ 9 then 1 else 0) * sum_list ?y,
                 ?c * (if \<bar>?c - p\<bar> < 1 / 10 ^ 9 then 1 else 0) * sum_list ?y) = ?t"
      using that unfolding sy by simp
    have "0 < (49 :: nat)" by simp
    from loess_point_double_constant_x [OF ly this f full, of linalg_solve ?c p]
    show ?thesis unfolding e t m .
  qed
  have "loess_1d_double linalg_solve ?y ?x [0, ?c] 1 =
      map_err (loess_point_double linalg_solve ?x ?y 49 1) [0, ?c]"
    unfolding loess_1d_double_nonempty [OF h] xs ys by simp
  also have "\<dots> = Inr [case linalg_solve ?M ?t of None \<Rightarrow> 1 | Some (a, b) \<Rightarrow> a + b * 0,
                        case linalg_solve ?M ?t of None \<Rightarrow> 1 | Some (a, b) \<Rightarrow> a + b * ?c]"
    by (simp only: map_err.simps p [OF c(1)] p [OF c(2)] bind_err.simps)
  finally show ?thesis using s m wm by (intro conjI)
qed

text \<open>With a solver that returns the solution \<open>(0, 2\<^sup>3\<^sup>1)\<close> of the singular system the
  estimates are 0 and 1; with a solver that raises both are the mean 1.\<close>

theorem loess_constant_x_estimate_witness:
  "loess_1d_double (\<lambda>m t. Some (0, 2 ^ 31)) (replicate 49 1) (replicate 49 (1 / 2 ^ 31))
     [0, 1 / 2 ^ 31] 1 = Inr [0, 1] \<and>
   loess_1d_double solve2 (replicate 49 1) (replicate 49 (1 / 2 ^ 31))
     [0, 1 / 2 ^ 31] 1 = Inr [1, 1]"
proof -
  have "solve2 (49, 49 / 2 ^ 31, 49 / 2 ^ 31, 49 / 2 ^ 62) (49, 49 / 2 ^ 31) = None"
    by (simp add: solve2_def singular2_def)
  with loess_constant_x_estimate [of "\<lambda>m t. Some (0, 2 ^ 31)"]
    loess_constant_x_estimate [of solve2]
  show ?thesis by simp
qed

text \<open>
  The same elimination on this system: the rounded reciprocal of the pivot 49 gives the
  multiplier \<open>c (1 - 2\<^sup>-\<^sup>5\<^sup>3)\<close>, the second pivot is \<open>2\<^sup>-\<^sup>1\<^sup>0\<^sup>9\<close>, not 0, and the right-hand side
  leaves \<open>2\<^sup>-\<^sup>7\<^sup>8\<close>: the slope is \<open>2\<^sup>3\<^sup>1\<close> and the intercept 0.
\<close>

lemma recip_49: "round_double (1 / 49) = 5882252574524729 / 2 ^ 58"
proof -
  have "round_double (1 / 49) = real_of_int 5882252574524729 * pow2 (max (- 6 - 52) (- 1074))"
    by (rule round_double_near) (simp_all add: pow2_def)
  then show ?thesis by (simp add: pow2_def)
qed

lemma mult_49: "round_double (49 / 2 ^ 31 * (5882252574524729 / 2 ^ 58)) = 9007199254740991 / 2 ^ 84"
proof -
  have "round_double (49 / 2 ^ 31 * (5882252574524729 / 2 ^ 58))
      = real_of_int 9007199254740991 * pow2 (max (- 32 - 52) (- 1074))"
    by (rule round_double_near) (simp_all add: pow2_def)
  then show ?thesis by (simp add: pow2_def)
qed

lemma elim_49: "round_double (9007199254740991 / 2 ^ 84 * (49 / 2 ^ 31)) = 6896136929411071 / 2 ^ 109"
proof -
  have "round_double (9007199254740991 / 2 ^ 84 * (49 / 2 ^ 31))
      = real_of_int 6896136929411071 * pow2 (max (- 57 - 52) (- 1074))"
    by (rule round_double_near) (simp_all add: pow2_def)
  then show ?thesis by (simp add: pow2_def)
qed

lemma forward_49: "round_double (9007199254740991 / 2 ^ 84 * 49) = 6896136929411071 / 2 ^ 78"
proof -
  have "round_double (9007199254740991 / 2 ^ 84 * 49)
      = real_of_int 6896136929411071 * pow2 (max (- 26 - 52) (- 1074))"
    by (rule round_double_near) (simp_all add: pow2_def)
  then show ?thesis by (simp add: pow2_def)
qed

lemma round_double_2_109: "round_double (1 / 2 ^ 109) = 1 / 2 ^ 109"
  by (rule round_double_exact [where k = "- 109" and m = 4503599627370496])
    (simp_all add: pow2_def)

lemma round_double_2_78: "round_double (1 / 2 ^ 78) = 1 / 2 ^ 78"
  by (rule round_double_exact [where k = "- 78" and m = 4503599627370496])
    (simp_all add: pow2_def)

lemma round_double_2_31: "round_double (2 ^ 31) = 2 ^ 31"
  by (rule round_double_exact [where k = 31 and m = 4503599627370496])
    (simp_all add: pow2_def)

lemma round_double_49: "round_double 49 = 49"
  by (rule round_double_exact [where k = 5 and m = 6896136929411072])
    (simp_all add: pow2_def)

lemma reciprocal_pivot_49:
  "round_double (49 / 2 ^ 62
     - round_double (round_double (49 / 2 ^ 31 * round_double (1 / 49)) * (49 / 2 ^ 31)))
     = 1 / 2 ^ 109 \<and>
   round_double (49 / 2 ^ 31
     - round_double (round_double (49 / 2 ^ 31 * round_double (1 / 49)) * 49))
     = 1 / 2 ^ 78 \<and>
   round_double (1 / 2 ^ 78 / (1 / 2 ^ 109)) = 2 ^ 31 \<and>
   round_double (49 - round_double (49 / 2 ^ 31 * 2 ^ 31)) = 0"
proof -
  have 1: "round_double (49 / 2 ^ 62
     - round_double (round_double (49 / 2 ^ 31 * round_double (1 / 49)) * (49 / 2 ^ 31)))
     = 1 / 2 ^ 109"
    unfolding recip_49 mult_49 elim_49 using round_double_2_109 by simp
  have 2: "round_double (49 / 2 ^ 31
     - round_double (round_double (49 / 2 ^ 31 * round_double (1 / 49)) * 49))
     = 1 / 2 ^ 78"
    unfolding recip_49 mult_49 forward_49 using round_double_2_78 by simp
  have 3: "round_double (1 / 2 ^ 78 / (1 / 2 ^ 109)) = 2 ^ 31"
    using round_double_2_31 by simp
  have 4: "round_double (49 - round_double (49 / 2 ^ 31 * 2 ^ 31)) = 0"
    using round_double_49 by (simp add: round_double_zero)
  from 1 2 3 4 show ?thesis by (intro conjI)
qed

section \<open>Properties of SimpleSTL\<close>

lemma arange_less:
  assumes "0 < step" "j \<in> set (arange i n step)"
  shows "j < n"
proof -
  from assms(2) have "\<exists>k. j = i + k * step \<and> k < (n - i + step - 1) div step"
    unfolding arange_def set_map set_upt image_iff Bex_def atLeastLessThan_iff by blast
  then obtain k where k: "j = i + k * step" "k < (n - i + step - 1) div step"
    by blast
  from k(2) have "Suc k \<le> (n - i + step - 1) div step" by simp
  then have "Suc k * step \<le> ((n - i + step - 1) div step) * step"
    by (rule mult_le_mono1)
  also have "\<dots> \<le> n - i + step - 1" by simp
  finally have "k * step + step \<le> n - i + step - 1" by simp
  with assms(1) have "k * step < n - i" by linarith
  with k(1) show ?thesis by linarith
qed

lemma length_scatter: "length (scatter a idx vals) = length a"
proof -
  have "length (fold (\<lambda>(i, v) acc. acc[i := v]) ps a) = length a" for ps
    by (induction ps arbitrary: a) (auto split: prod.splits)
  then show ?thesis by (simp add: scatter_def)
qed

lemma smooth_subseries_Inr:
  assumes "length time_idx = n" "length des = n" "0 < sp"
  shows "\<exists>r. smooth_subseries time_idx des n sp bw i acc = Inr r \<and> length r = length acc"
proof (cases "arange i n sp = []")
  case True
  then show ?thesis by (simp add: smooth_subseries_def)
next
  case False
  let ?pi = "arange i n sp"
  have sub: "set ?pi \<subseteq> {..<n}" using arange_less [OF assms(3)] by auto
  have 1: "fancy_index time_idx ?pi = Inr (map (\<lambda>i. time_idx ! i) ?pi)"
    using sub assms(1) by (intro fancy_index_Inr) simp
  have 2: "fancy_index des ?pi = Inr (map (\<lambda>i. des ! i) ?pi)"
    using sub assms(2) by (intro fancy_index_Inr) simp
  obtain est where est:
    "loess_1d (map (\<lambda>i. des ! i) ?pi) (map (\<lambda>i. time_idx ! i) ?pi) (map (\<lambda>i. time_idx ! i) ?pi) bw = Inr est"
    using loess_1d_Inr [of "map (\<lambda>i. time_idx ! i) ?pi" "map (\<lambda>i. des ! i) ?pi"] by auto
  show ?thesis
    using False by (simp add: smooth_subseries_def 1 2 est length_scatter)
qed

lemma for_err_Inr:
  assumes "\<And>i a. i \<in> set is \<Longrightarrow> P a \<Longrightarrow> \<exists>a'. f i a = Inr a' \<and> P a'" "P a"
  shows "\<exists>a'. for_err is f a = Inr a' \<and> P a'"
  using assms
proof (induction "is" arbitrary: a)
  case Nil
  then show ?case by simp
next
  case (Cons i "is")
  from Cons.prems obtain a1 where a1: "f i a = Inr a1" "P a1" by fastforce
  from Cons.IH [of a1] Cons.prems(1) a1(2)
  obtain a2 where "for_err is f a1 = Inr a2" "P a2" by auto
  with a1 show ?case by simp
qed

lemma iterate_err_Inr:
  assumes "\<And>a. P a \<Longrightarrow> \<exists>a'. f a = Inr a' \<and> P a'" "P a"
  shows "\<exists>a'. iterate_err k f a = Inr a' \<and> P a'"
  using assms(2)
proof (induction k arbitrary: a)
  case 0
  then show ?case by simp
next
  case (Suc k)
  from assms(1) [OF Suc.prems] obtain a1 where a1: "f a = Inr a1" "P a1" by auto
  from Suc.IH [OF a1(2)] a1(1) show ?case by simp
qed

lemma seasonal_smoothed_Inr:
  assumes "length time_idx = n" "length des = n"
  shows "\<exists>r. for_err (py_range sp) (smooth_subseries time_idx des n (nat sp) bw) (replicate n 0) = Inr r
             \<and> length r = n"
proof (cases "0 < sp")
  case True
  then have "0 < nat sp" by simp
  from for_err_Inr [of "py_range sp" "\<lambda>a. length a = n"
       "smooth_subseries time_idx des n (nat sp) bw" "replicate n 0"]
    smooth_subseries_Inr [OF assms this]
  show ?thesis by fastforce
next
  case False
  then show ?thesis by (simp add: py_range_def)
qed

lemma additive_residual:
  assumes "length s = length data" "length t = length data"
  shows "additive data (s, t, map2 (-) (map2 (-) data s) t)"
proof -
  have "map2 (+) (map2 (+) s t) (map2 (-) (map2 (-) data s) t) = data"
    using assms by (intro nth_equalityI) simp_all
  with assms show ?thesis by (simp add: additive_def)
qed

lemma inner_pass_Inr:
  assumes "length time_idx = n" "length data = n" "additive data c"
  shows "\<exists>c'. inner_pass data time_idx n sp ss ts c = Inr c' \<and> additive data c'"
proof -
  obtain s0 t0 r0 where c: "c = (s0, t0, r0)" by (cases c)
  with assms have lt: "length t0 = n" by (simp add: additive_def)
  let ?des = "map2 (-) data t0"
  have "length ?des = n" using assms lt by simp
  from seasonal_smoothed_Inr [OF assms(1) this, of sp ss]
  obtain sm where sm: "for_err (py_range sp) (smooth_subseries time_idx ?des n (nat sp) ss)
      (replicate n 0) = Inr sm" "length sm = n" by auto
  have "length time_idx \<le> length sm" using assms sm by simp
  from loess_1d_Inr [OF this, of time_idx ts] assms(1)
  obtain st where st: "loess_1d sm time_idx time_idx ts = Inr st" "length st = n"
    by blast
  let ?s1 = "map2 (-) sm st"
  let ?det = "map2 (-) data ?s1"
  have ls: "length ?s1 = n" using sm st by simp
  have "length time_idx \<le> length ?det" using assms ls by simp
  from loess_1d_Inr [OF this, of time_idx ts] assms(1)
  obtain t1 where t1: "loess_1d ?det time_idx time_idx ts = Inr t1" "length t1 = n"
    by blast
  have "additive data (?s1, t1, map2 (-) (map2 (-) data ?s1) t1)"
    using ls t1 assms by (intro additive_residual) simp_all
  then show ?thesis
    unfolding inner_pass_def c by (simp add: sm st t1 Let_def)
qed

lemma outer_pass_Inr:
  assumes "length time_idx = n" "length data = n" "additive data c"
  shows "\<exists>c'. outer_pass data time_idx n sp ss ts m c = Inr c' \<and> additive data c'"
  unfolding outer_pass_def Let_def
  using inner_pass_Inr [OF assms(1,2)] assms(3) by (rule iterate_err_Inr)

lemma passes_Inr:
  assumes "length time_idx = n" "length data = n" "additive data c"
  shows "\<exists>c'. iterate_err k (outer_pass data time_idx n sp ss ts m) c = Inr c' \<and> additive data c'"
  using outer_pass_Inr [OF assms(1,2)] assms(3) by (rule iterate_err_Inr)

lemma additive_init: "additive data (replicate (length data) 0, replicate (length data) 0, data)"
  by (simp add: additive_def) (intro nth_equalityI, simp_all)

lemma fit_empty:
  "fit self [] = Inr (self\<lparr>stl_data := Some [], stl_n := 0, seasonal := Some [], trend := Some [],
                           residual := Some []\<rparr>)"
  by (simp add: fit_def)

lemma fit_nonempty:
  assumes "data \<noteq> []"
  shows "fit self data =
     bind_err (passes self data)
       (\<lambda>(s1, t1, r1). Inr (self\<lparr>
          stl_data := Some data, stl_n := length data,
          stl_times := Some (map real [0..<length data]),
          seasonal_smoother_span := Some (seasonal_span_of self (length data)),
          n_trend_bandwidth := Some (trend_bandwidth_of self),
          n_lowpass_bandwidth := Some (lowpass_bandwidth_of self),
          trend_smoother_span := Some (trend_span_of self (length data)),
          lowpass_smoother_span := Some (lowpass_span_of self (length data)),
          seasonal := Some s1, trend := Some t1, residual := Some r1\<rparr>))"
  using assms
  unfolding fit_def passes_def seasonal_span_of_def trend_span_of_def lowpass_span_of_def
    trend_bandwidth_of_def lowpass_bandwidth_of_def
  by (simp add: Let_def cong: option.case_cong)

lemma passes_additive: "\<exists>c. passes self data = Inr c \<and> additive data c"
  unfolding passes_def
  by (rule passes_Inr) (simp_all add: additive_init)

lemma fit_Inr:
  "\<exists>self' s t r. fit self data = Inr self' \<and> seasonal self' = Some s \<and> trend self' = Some t \<and>
     residual self' = Some r \<and> additive data (s, t, r)"
proof (cases "data = []")
  case True
  then show ?thesis by (simp add: fit_empty additive_def)
next
  case False
  from passes_additive [of self data] obtain s t r
    where "passes self data = Inr (s, t, r)" "additive data (s, t, r)"
    by (metis prod_cases3)
  then show ?thesis by (simp add: fit_nonempty [OF False])
qed

lemma additive_nth:
  assumes "additive data (s, t, r)" "i < length data"
  shows "s ! i + t ! i + r ! i = data ! i"
proof -
  from assms(1) have len: "length s = length data" "length t = length data"
    "length r = length data" and eq: "map2 (+) (map2 (+) s t) r = data"
    by (simp_all add: additive_def)
  have "map2 (+) (map2 (+) s t) r ! i = s ! i + t ! i + r ! i"
    using len assms(2) by simp
  then show ?thesis by (simp only: eq)
qed

lemma passes_no_inner:
  assumes "n_inner_iterations self \<le> 0"
  shows "passes self data = Inr (replicate (length data) 0, replicate (length data) 0, data)"
proof -
  have "iterate_err k (outer_pass data ti n sp ss ts (n_inner_iterations self)) c = Inr c" for k ti n sp ss ts c
    using assms by (induction k) (simp_all add: outer_pass_def py_range_def)
  then show ?thesis by (simp add: passes_def)
qed

text \<open>
  Claim C1 (STL additive identity). For every series and every configuration, \<open>fit\<close>
  completes, the three components have the length of the series, and at every index
  \<open>seasonal + trend + residual\<close> is the value of the series. With no inner iteration the
  seasonal and trend components are all zero and the residual is the series.
\<close>

theorem stl_additive_identity:
  "\<exists>self' s t r. fit self data = Inr self' \<and>
     get_components self' = (Some s, Some t, Some r) \<and>
     length s = length data \<and> length t = length data \<and> length r = length data \<and>
     (\<forall>i<length data. s ! i + t ! i + r ! i = data ! i) \<and>
     (n_inner_iterations self \<le> 0 \<longrightarrow>
        s = replicate (length data) 0 \<and> t = replicate (length data) 0 \<and> r = data)"
proof -
  from fit_Inr [of self data] obtain self' s t r where f: "fit self data = Inr self'"
    "seasonal self' = Some s" "trend self' = Some t" "residual self' = Some r"
    "additive data (s, t, r)" by blast
  have "s = replicate (length data) 0 \<and> t = replicate (length data) 0 \<and> r = data"
    if "n_inner_iterations self \<le> 0"
  proof (cases "data = []")
    case True
    with f show ?thesis by (simp add: fit_empty additive_def)
  next
    case False
    from f(1-4) show ?thesis
      by (auto simp: fit_nonempty [OF False] passes_no_inner [OF that])
  qed
  moreover have "\<forall>i<length data. s ! i + t ! i + r ! i = data ! i"
    using additive_nth [OF f(5)] by blast
  moreover have "length s = length data \<and> length t = length data \<and> length r = length data"
    using f(5) by (simp add: additive_def)
  ultimately show ?thesis
    using f(1-4) by (simp add: get_components_def)
qed

theorem stl_additive_identity_witness:
  "\<exists>self' s t r. fit (init_stl 2 None None None None None 2 0) [1, 2, 3, 4] = Inr self' \<and>
     get_components self' = (Some s, Some t, Some r) \<and>
     length s = 4 \<and> length t = 4 \<and> length r = 4 \<and>
     s ! 0 + t ! 0 + r ! 0 = 1 \<and> s ! 1 + t ! 1 + r ! 1 = 2 \<and>
     s ! 2 + t ! 2 + r ! 2 = 3 \<and> s ! 3 + t ! 3 + r ! 3 = 4"
proof -
  from stl_additive_identity [of "init_stl 2 None None None None None 2 0" "[1, 2, 3, 4]"]
  obtain self' s t r where f:
    "fit (init_stl 2 None None None None None 2 0) [1, 2, 3, 4] = Inr self'"
    "get_components self' = (Some s, Some t, Some r)"
    "length s = 4" "length t = 4" "length r = 4"
    "\<forall>i<4. s ! i + t ! i + r ! i = [1, 2, 3, 4] ! i"
    by auto
  from f(6) have "s ! 0 + t ! 0 + r ! 0 = 1" "s ! 1 + t ! 1 + r ! 1 = 2"
    "s ! 2 + t ! 2 + r ! 2 = 3" "s ! 3 + t ! 3 + r ! 3 = 4"
    by (simp_all add: nth_Cons numeral_nat)
  with f(1-5) show ?thesis by blast
qed

lemma bind_err_Inr_id: "bind_err x Inr = x"
  by (cases x) simp_all

lemma iterate_err_one: "iterate_err (Suc 0) f c = f c"
  by (cases "f c") simp_all

lemma iterate_err_add:
  "iterate_err (a + b) f c = bind_err (iterate_err a f c) (iterate_err b f)"
proof (induction a arbitrary: c)
  case 0
  then show ?case by simp
next
  case (Suc a)
  show ?case
  proof (cases "f c")
    case (Inl e)
    then show ?thesis by simp
  next
    case (Inr c1)
    then show ?thesis by (simp add: Suc.IH)
  qed
qed

lemma iterate_err_mult:
  "iterate_err (j * m) f c = iterate_err j (iterate_err m f) c"
proof (induction j arbitrary: c)
  case 0
  then show ?case by simp
next
  case (Suc j)
  have "iterate_err (Suc j * m) f c = bind_err (iterate_err m f c) (iterate_err (j * m) f)"
    by (simp add: iterate_err_add)
  also have "iterate_err (j * m) f = iterate_err j (iterate_err m f)"
    using Suc.IH by (intro ext)
  finally show ?case by simp
qed


lemma fit_components:
  "\<exists>r c. fit self data = Inr r \<and> get_components r = (Some (fst c), Some (fst (snd c)), Some (snd (snd c)))
     \<and> (if data = [] then c = ([], [], []) else passes self data = Inr c)"
proof (cases "data = []")
  case True
  then show ?thesis by (simp add: fit_empty get_components_def)
next
  case False
  from passes_additive [of self data] obtain c where "passes self data = Inr c" by blast
  then show ?thesis
    using False by (cases c) (simp add: fit_nonempty get_components_def)
qed

lemma fit_components_cong:
  assumes "passes self2 data = passes self1 data"
  shows "\<exists>r1 r2. fit self1 data = Inr r1 \<and> fit self2 data = Inr r2 \<and>
           get_components r2 = get_components r1"
proof -
  from fit_components [of self1 data] obtain r1 c1 where 1: "fit self1 data = Inr r1"
    "get_components r1 = (Some (fst c1), Some (fst (snd c1)), Some (snd (snd c1)))"
    "if data = [] then c1 = ([], [], []) else passes self1 data = Inr c1" by blast
  from fit_components [of self2 data] obtain r2 c2 where 2: "fit self2 data = Inr r2"
    "get_components r2 = (Some (fst c2), Some (fst (snd c2)), Some (snd (snd c2)))"
    "if data = [] then c2 = ([], [], []) else passes self2 data = Inr c2" by blast
  from 1(3) 2(3) assms have "c1 = c2" by (auto split: if_splits)
  with 1 2 show ?thesis by simp
qed






lemma passes_collapse:
  assumes "0 \<le> k" "0 \<le> m"
  shows "passes (self\<lparr>n_outer_iterations := 0, n_inner_iterations := (k + 1) * m\<rparr>) data
       = passes (self\<lparr>n_outer_iterations := k, n_inner_iterations := m\<rparr>) data"
proof -
  let ?f = "inner_pass data (map real [0..<length data]) (length data) (seasonal_period self)
          (seasonal_span_of self (length data)) (trend_span_of self (length data))"
  let ?c = "(replicate (length data) (0::real), replicate (length data) (0::real), data)"
  have nk: "nat (k + 1) = Suc (nat k)" using assms by simp
  have nm: "nat ((k + 1) * m) = Suc (nat k) * nat m"
    using assms by (simp add: nat_mult_distrib nk)
  have "passes (self\<lparr>n_outer_iterations := k, n_inner_iterations := m\<rparr>) data
      = iterate_err (Suc (nat k)) (iterate_err (nat m) ?f) ?c"
    unfolding passes_def outer_pass_def [abs_def] Let_def
    by (simp add: py_range_def nk seasonal_span_of_def trend_span_of_def trend_bandwidth_of_def
          cong: option.case_cong)
  also have "\<dots> = iterate_err (Suc (nat k) * nat m) ?f ?c"
    by (simp only: iterate_err_mult)
  also have "\<dots> = passes (self\<lparr>n_outer_iterations := 0, n_inner_iterations := (k + 1) * m\<rparr>) data"
    unfolding passes_def outer_pass_def [abs_def] Let_def
    by (simp add: py_range_def nm iterate_err_one seasonal_span_of_def trend_span_of_def
          trend_bandwidth_of_def del: iterate_err.simps cong: option.case_cong)
  finally show ?thesis by simp
qed

text \<open>
  Claim C3 (outer iterations collapse). For \<open>k \<ge> 0\<close> and \<open>m \<ge> 0\<close>, \<open>fit\<close> with \<open>k\<close> outer
  and \<open>m\<close> inner iterations gives the same components as \<open>fit\<close> with no outer and
  \<open>(k + 1) * m\<close> inner iterations. The outer loop runs \<open>k + 1\<close> times, and the robustness
  weights it sets are all 1 (the inner pass does not take them, nor the loop index).
\<close>

theorem outer_iteration_collapse:
  assumes "0 \<le> k" "0 \<le> m"
  shows "\<exists>r1 r2.
     fit (self\<lparr>n_outer_iterations := k, n_inner_iterations := m\<rparr>) data = Inr r1 \<and>
     fit (self\<lparr>n_outer_iterations := 0, n_inner_iterations := (k + 1) * m\<rparr>) data = Inr r2 \<and>
     get_components r2 = get_components r1 \<and>
     length (py_range (n_outer_iterations (self\<lparr>n_outer_iterations := k\<rparr>) + 1)) = nat k + 1 \<and>
     (\<forall>w \<in> set (robustness_weights (length data)). w = 1)"
proof -
  from fit_components_cong [OF passes_collapse [OF assms, where self = self and data = data]]
  obtain r1 r2 where
    "fit (self\<lparr>n_outer_iterations := k, n_inner_iterations := m\<rparr>) data = Inr r1"
    "fit (self\<lparr>n_outer_iterations := 0, n_inner_iterations := (k + 1) * m\<rparr>) data = Inr r2"
    "get_components r2 = get_components r1" by blast
  moreover have "length (py_range (n_outer_iterations (self\<lparr>n_outer_iterations := k\<rparr>) + 1)) = nat k + 1"
    using assms by (simp add: py_range_def)
  moreover have "\<forall>w \<in> set (robustness_weights (length data)). w = 1"
    by (simp add: robustness_weights_def)
  ultimately show ?thesis by blast
qed

theorem outer_iteration_collapse_witness:
  "\<exists>r1 r2.
     fit ((init_stl 2 None None None None None 2 0)\<lparr>n_outer_iterations := 2, n_inner_iterations := 3\<rparr>)
       [1, 2, 3, 4] = Inr r1 \<and>
     fit ((init_stl 2 None None None None None 2 0)\<lparr>n_outer_iterations := 0, n_inner_iterations := 9\<rparr>)
       [1, 2, 3, 4] = Inr r2 \<and>
     get_components r2 = get_components r1 \<and>
     length (py_range (2 + 1)) = 3 \<and> robustness_weights 4 = [1, 1, 1, 1]"
proof -
  let ?self = "init_stl 2 None None None None None 2 0"
  let ?data = "[1, 2, 3, 4] :: real list"
  have k: "(0::int) \<le> 2" and m: "(0::int) \<le> 3" by simp_all
  from outer_iteration_collapse [OF k m, where self = ?self and data = ?data]
  obtain r1 r2 where
    "fit (?self\<lparr>n_outer_iterations := 2, n_inner_iterations := 3\<rparr>) ?data = Inr r1"
    "fit (?self\<lparr>n_outer_iterations := 0, n_inner_iterations := (2 + 1) * 3\<rparr>) ?data = Inr r2"
    "get_components r2 = get_components r1"
    by blast
  moreover have "robustness_weights 4 = [1, 1, 1, 1]"
    by (simp add: robustness_weights_def numeral_nat)
  moreover have "length (py_range (2 + 1)) = 3"
    by (simp add: py_range_def)
  ultimately show ?thesis by auto
qed

lemma fit_empty_config: "\<exists>r. fit self [] = Inr r \<and> config r = config self"
  by (simp add: fit_empty config_def)

lemma fit_nonempty_config:
  assumes "data \<noteq> []"
  shows "\<exists>r. fit self data = Inr r \<and>
     config r = (seasonal_period self, Some (trend_bandwidth_of self), Some (lowpass_bandwidth_of self),
       Some (seasonal_span_of self (length data)), Some (trend_span_of self (length data)),
       Some (lowpass_span_of self (length data)), n_inner_iterations self, n_outer_iterations self)"
proof -
  from passes_additive [of self data] obtain c where "passes self data = Inr c" by blast
  then show ?thesis by (cases c) (simp add: fit_nonempty [OF assms] config_def)
qed

lemma fit_frozen:
  assumes "frozen self"
  shows "\<exists>r. fit self data = Inr r \<and> config r = config self \<and> frozen r"
proof (cases "data = []")
  case True
  with assms show ?thesis by (simp add: fit_empty config_def frozen_def)
next
  case False
  from fit_nonempty_config [OF False, of self] obtain r where r: "fit self data = Inr r"
    "config r = (seasonal_period self, Some (trend_bandwidth_of self), Some (lowpass_bandwidth_of self),
       Some (seasonal_span_of self (length data)), Some (trend_span_of self (length data)),
       Some (lowpass_span_of self (length data)), n_inner_iterations self, n_outer_iterations self)"
    by blast
  from assms have "config r = config self"
    unfolding r(2)
    by (auto simp: frozen_def config_def trend_bandwidth_of_def lowpass_bandwidth_of_def
          seasonal_span_of_def trend_span_of_def lowpass_span_of_def)
  moreover from this assms have "frozen r" by (simp add: frozen_def config_def)
  ultimately show ?thesis using r(1) by blast
qed

lemma fit_all_frozen:
  assumes "frozen self"
  shows "\<exists>r. fit_all self series = Inr r \<and> config r = config self \<and> frozen r"
  using assms
proof (induction series arbitrary: self)
  case Nil
  then show ?case by (simp add: fit_all_def)
next
  case (Cons data series)
  from fit_frozen [OF Cons.prems, of data] obtain r1 where r1: "fit self data = Inr r1"
    "config r1 = config self" "frozen r1" by blast
  from Cons.IH [OF r1(3)] obtain r where "fit_all r1 series = Inr r" "config r = config r1" "frozen r"
    by blast
  with r1 show ?case by (simp add: fit_all_def)
qed

text \<open>
  Claim C10, amended (default spans are frozen by the first fit on a series that is not
  empty). For an instance whose three span fields are \<open>None\<close>: a fit on the empty series
  returns before any default is computed and changes no configuration field; a fit on a
  series of length \<open>n > 0\<close> stores \<open>7 / n\<close>, the trend window over \<open>n\<close> and the low-pass
  window over \<open>n\<close> in the span fields, stores the two window lengths (the given ones, or
  the defaults where they were \<open>None\<close>), and leaves \<open>seasonal_period\<close> and the two iteration
  counts as they were; after it, every sequence of further fits, on series of any
  length, completes and leaves all eight configuration fields as that fit left them.
\<close>

theorem default_spans_frozen:
  assumes "seasonal_smoother_span self = None" "trend_smoother_span self = None"
    "lowpass_smoother_span self = None" "data \<noteq> []"
  shows "(\<exists>r0. fit self [] = Inr r0 \<and> config r0 = config self) \<and>
    (\<exists>r1. fit self data = Inr r1 \<and>
       seasonal_smoother_span r1 = Some (7 / real (length data)) \<and>
       trend_smoother_span r1 = Some (real_of_int (trend_bandwidth_of self) / real (length data)) \<and>
       lowpass_smoother_span r1 = Some (real_of_int (lowpass_bandwidth_of self) / real (length data)) \<and>
       n_trend_bandwidth r1 = Some (trend_bandwidth_of self) \<and>
       n_lowpass_bandwidth r1 = Some (lowpass_bandwidth_of self) \<and>
       seasonal_period r1 = seasonal_period self \<and>
       n_inner_iterations r1 = n_inner_iterations self \<and>
       n_outer_iterations r1 = n_outer_iterations self \<and>
       (\<forall>series. \<exists>r2. fit_all r1 series = Inr r2 \<and> config r2 = config r1))"
proof -
  from fit_nonempty_config [OF assms(4), of self] obtain r1 where r1: "fit self data = Inr r1"
    "config r1 = (seasonal_period self, Some (trend_bandwidth_of self), Some (lowpass_bandwidth_of self),
       Some (seasonal_span_of self (length data)), Some (trend_span_of self (length data)),
       Some (lowpass_span_of self (length data)), n_inner_iterations self, n_outer_iterations self)"
    by blast
  from r1(2) have "frozen r1" by (simp add: frozen_def config_def)
  from fit_all_frozen [OF this] have "\<forall>series. \<exists>r2. fit_all r1 series = Inr r2 \<and> config r2 = config r1"
    by blast
  moreover from r1(2) assms(1-3) have
    "seasonal_smoother_span r1 = Some (7 / real (length data))"
    "trend_smoother_span r1 = Some (real_of_int (trend_bandwidth_of self) / real (length data))"
    "lowpass_smoother_span r1 = Some (real_of_int (lowpass_bandwidth_of self) / real (length data))"
    "n_trend_bandwidth r1 = Some (trend_bandwidth_of self)"
    "n_lowpass_bandwidth r1 = Some (lowpass_bandwidth_of self)"
    "seasonal_period r1 = seasonal_period self"
    "n_inner_iterations r1 = n_inner_iterations self"
    "n_outer_iterations r1 = n_outer_iterations self"
    by (simp_all add: config_def seasonal_span_of_def trend_span_of_def lowpass_span_of_def)
  ultimately show ?thesis using r1(1) fit_empty_config [of self] by blast
qed

theorem default_spans_frozen_witness:
  "\<exists>r1. fit (init_stl 2 None None None None None 2 0) [1, 2, 3, 4] = Inr r1 \<and>
     seasonal_smoother_span r1 = Some (7 / 4) \<and> trend_smoother_span r1 = Some (3 / 4) \<and>
     lowpass_smoother_span r1 = Some (3 / 4) \<and>
     (\<exists>r2. fit_all r1 [[5, 6], [], [7, 8, 9]] = Inr r2 \<and> config r2 = config r1 \<and>
        seasonal_smoother_span r2 = Some (7 / 4))"
proof -
  let ?self = "init_stl 2 None None None None None 2 0"
  let ?data = "[1, 2, 3, 4] :: real list"
  have h: "seasonal_smoother_span ?self = None" "trend_smoother_span ?self = None"
    "lowpass_smoother_span ?self = None" "?data \<noteq> []"
    by (simp_all add: init_stl_def)
  from default_spans_frozen [OF h] obtain r1 where r1: "fit ?self ?data = Inr r1"
    "seasonal_smoother_span r1 = Some (7 / real (length ?data))"
    "trend_smoother_span r1 = Some (real_of_int (trend_bandwidth_of ?self) / real (length ?data))"
    "lowpass_smoother_span r1 = Some (real_of_int (lowpass_bandwidth_of ?self) / real (length ?data))"
    "\<forall>series. \<exists>r2. fit_all r1 series = Inr r2 \<and> config r2 = config r1"
    by blast
  have "trend_bandwidth_of ?self = 3" "lowpass_bandwidth_of ?self = 3"
    by (simp_all add: trend_bandwidth_of_def lowpass_bandwidth_of_def init_stl_def
          default_bandwidth_def)
  moreover from r1(5) obtain r2 where r2: "fit_all r1 [[5, 6], [], [7, 8, 9]] = Inr r2"
    "config r2 = config r1" by blast
  moreover from r2(2) have "seasonal_smoother_span r2 = seasonal_smoother_span r1"
    by (simp add: config_def)
  ultimately show ?thesis using r1(1-4) by auto
qed

theorem default_spans_frozen_counterexample:
  "\<exists>r0 r1 r2. fit (init_stl 2 None None None None None 2 0) [] = Inr r0 \<and>
     seasonal_smoother_span r0 = None \<and> trend_smoother_span r0 = None \<and>
     lowpass_smoother_span r0 = None \<and>
     fit r0 [1, 2, 3, 4] = Inr r1 \<and> seasonal_smoother_span r1 = Some (7 / 4) \<and>
     fit (init_stl 2 None None None None None 2 0) [1, 2, 3, 4] = Inr r2 \<and>
     n_trend_bandwidth (init_stl 2 None None None None None 2 0) = None \<and>
     n_trend_bandwidth r2 = Some 3 \<and>
     n_lowpass_bandwidth (init_stl 2 None None None None None 2 0) = None \<and>
     n_lowpass_bandwidth r2 = Some 3"
proof -
  let ?self = "init_stl 2 None None None None None 2 0"
  let ?data = "[1, 2, 3, 4] :: real list"
  let ?r0 = "?self\<lparr>stl_data := Some [], stl_n := 0, seasonal := Some [], trend := Some [],
                           residual := Some []\<rparr>"
  have ne: "?data \<noteq> []" by simp
  have r0: "fit ?self [] = Inr ?r0" by (rule fit_empty)
  from fit_nonempty_config [OF ne, of ?r0] obtain r1 where r1: "fit ?r0 ?data = Inr r1"
    "seasonal_smoother_span r1 = Some (seasonal_span_of ?r0 (length ?data))"
    by (auto simp: config_def)
  from fit_nonempty_config [OF ne, of ?self] obtain r2 where r2: "fit ?self ?data = Inr r2"
    "n_trend_bandwidth r2 = Some (trend_bandwidth_of ?self)"
    "n_lowpass_bandwidth r2 = Some (lowpass_bandwidth_of ?self)"
    by (auto simp: config_def)
  have "seasonal_span_of ?r0 (length ?data) = 7 / 4"
    by (simp add: seasonal_span_of_def init_stl_def)
  moreover have "trend_bandwidth_of ?self = 3" "lowpass_bandwidth_of ?self = 3"
    by (simp_all add: trend_bandwidth_of_def lowpass_bandwidth_of_def init_stl_def
          default_bandwidth_def)
  ultimately show ?thesis
    using r0 r1 r2 by (simp add: init_stl_def)
qed

section \<open>Properties of SimpleRBFKernelRegression\<close>

lemma dot_commute: "dot u v = dot v u"
proof -
  have "map2 (\<lambda>a b. a * b) u v = map2 (\<lambda>a b. a * b) v (u :: real list)"
    by (induction u v rule: list_induct2') (simp_all add: mult.commute)
  then show ?thesis by (simp add: dot_def)
qed

lemma dot_self: "dot u u = sum_sq u"
  by (induction u) (simp_all add: dot_def sum_sq_def power2_eq_square)

lemma rbf_kernel_Inr:
  assumes "sig \<noteq> 0" "ncols x1 = ncols x2"
  shows "rbf_kernel sig x1 x2 =
    Inr (map (\<lambda>u. map (\<lambda>v. exp (- (1 / (2 * sig ^ 2)) *
             (let s = sum_sq u + sum_sq v - 2 * dot u v in if s < 0 then 0 else s)))
           (rows x2)) (rows x1))"
  using assms by (simp add: rbf_kernel_def sq_dists_def Let_def comp_def)

text \<open>
  In exact arithmetic, for a bandwidth \<open>sigma\<close> that is not zero and every 2-D array \<open>X\<close>,
  \<open>_rbf_kernel(X, X)\<close> is a square matrix of the size of \<open>X\<close>, it is symmetric, and every
  diagonal entry is 1.
\<close>

lemma gram_matrix_exact:
  assumes "sig \<noteq> 0"
  shows "\<exists>K. rbf_kernel sig X X = Inr K \<and> length K = nrows X \<and>
     (\<forall>i<nrows X. length (K ! i) = nrows X \<and> K ! i ! i = 1 \<and>
        (\<forall>j<nrows X. K ! i ! j = K ! j ! i))"
proof -
  let ?e = "\<lambda>u v. exp (- (1 / (2 * sig ^ 2)) *
             (let s = sum_sq u + sum_sq v - 2 * dot u v in if s < 0 then 0 else s))"
  let ?K = "map (\<lambda>u. map (\<lambda>v. ?e u v) (rows X)) (rows X)"
  have K: "rbf_kernel sig X X = Inr ?K"
    using assms by (intro rbf_kernel_Inr) simp_all
  have sym: "?e u v = ?e v u" for u v
    by (simp add: dot_commute [of u v] add.commute)
  have diag: "?e u u = 1" for u
    by (simp add: dot_self)
  have ent: "?K ! i ! j = ?e (rows X ! i) (rows X ! j)" if "i < nrows X" "j < nrows X" for i j
    using that by (simp add: nrows_def)
  have "length (?K ! i) = nrows X \<and> ?K ! i ! i = 1 \<and> (\<forall>j<nrows X. ?K ! i ! j = ?K ! j ! i)"
    if i: "i < nrows X" for i
  proof -
    have "length (?K ! i) = nrows X" using i by (simp add: nrows_def)
    moreover have "?K ! i ! i = 1" unfolding ent [OF i i] by (rule diag)
    moreover have "?K ! i ! j = ?K ! j ! i" if "j < nrows X" for j
      unfolding ent [OF i that] ent [OF that i] by (rule sym)
    ultimately show ?thesis by blast
  qed
  moreover have "length ?K = nrows X" by (simp add: nrows_def)
  ultimately show ?thesis using K by blast
qed

lemma gram_matrix_exact_example:
  "\<exists>K. rbf_kernel 1 (Array2 1 [[0], [1]]) (Array2 1 [[0], [1]]) = Inr K \<and>
     K = [[1, exp (- (1 / 2))], [exp (- (1 / 2)), 1]] \<and>
     length K = 2 \<and> length (K ! 0) = 2 \<and> length (K ! 1) = 2 \<and>
     K ! 0 ! 0 = 1 \<and> K ! 1 ! 1 = 1 \<and> K ! 0 ! 1 = K ! 1 ! 0"
proof -
  let ?X = "Array2 1 [[0], [1]]"
  have s: "(1::real) \<noteq> 0" by simp
  have n: "nrows ?X = 2" by (simp add: nrows_def)
  from gram_matrix_exact [OF s, of ?X] obtain K where K:
    "rbf_kernel 1 ?X ?X = Inr K" "length K = nrows ?X"
    "\<forall>i<nrows ?X. length (K ! i) = nrows ?X \<and> K ! i ! i = 1 \<and> (\<forall>j<nrows ?X. K ! i ! j = K ! j ! i)"
    by blast
  from K(3) have 0: "length (K ! 0) = 2 \<and> K ! 0 ! 0 = 1 \<and> K ! 0 ! 1 = K ! 1 ! 0"
    unfolding n by simp
  from K(3) have 1: "length (K ! 1) = 2 \<and> K ! 1 ! 1 = 1"
    unfolding n by simp
  have "rbf_kernel 1 ?X ?X = Inr [[1, exp (- (1 / 2))], [exp (- (1 / 2)), 1]]"
    by (simp add: rbf_kernel_def sq_dists_def sum_sq_def dot_def Let_def)
  with K(1) have "K = [[1, exp (- (1 / 2))], [exp (- (1 / 2)), 1]]" by simp
  with K(1,2) 0 1 show ?thesis unfolding n by blast
qed

text \<open>
  In double precision the diagonal need not be 1. \<open>np.sum(x**2)\<close> rounds every square
  before it adds; a matrix product that accumulates with fused multiply-add rounds the
  dot product of a row with itself once less. For the row \<open>[0.1, 0.3]\<close> the sum of squares
  is the double above 0.1 and the fused dot product is the double below it, so the
  squared distance of the row to itself comes out as \<open>2\<^sup>-\<^sup>5\<^sup>5\<close>: positive, and left alone by
  the clamp of the negative entries. The diagonal entry is then \<open>exp(-gamma * 2\<^sup>-\<^sup>5\<^sup>5)\<close>, which
  is below 1 and far from it when \<open>sigma\<close> is small.
\<close>

lemma round_even_tie:
  assumes "t = real_of_int m + 1 / 2" "even m"
  shows "round_even t = m"
proof -
  have "\<lfloor>t\<rfloor> = m" unfolding assms(1) by (intro floor_unique) simp_all
  then show ?thesis using assms by (simp add: round_even_def)
qed

lemma square_tenth:
  "round_double (3602879701896397 / 2 ^ 55 * (3602879701896397 / 2 ^ 55)) = 5764607523034236 / 2 ^ 59"
proof -
  have "round_double (3602879701896397 / 2 ^ 55 * (3602879701896397 / 2 ^ 55))
      = real_of_int 5764607523034236 * pow2 (max (- 7 - 52) (- 1074))"
    by (rule round_double_near) (simp_all add: pow2_def)
  then show ?thesis by (simp add: pow2_def)
qed

lemma square_three_tenths:
  "round_double (5404319552844595 / 2 ^ 54 * (5404319552844595 / 2 ^ 54)) = 6485183463413514 / 2 ^ 56"
proof -
  have "round_double (5404319552844595 / 2 ^ 54 * (5404319552844595 / 2 ^ 54))
      = real_of_int 6485183463413514 * pow2 (max (- 4 - 52) (- 1074))"
    by (rule round_double_near) (simp_all add: pow2_def)
  then show ?thesis by (simp add: pow2_def)
qed

lemma sum_squares_rounded:
  "round_double (5764607523034236 / 2 ^ 59 + 6485183463413514 / 2 ^ 56) = 7205759403792794 / 2 ^ 56"
proof -
  let ?x = "5764607523034236 / 2 ^ 59 + 6485183463413514 / 2 ^ 56 :: real"
  have b: "pow2 (- 4) \<le> \<bar>?x\<bar>" "\<bar>?x\<bar> < pow2 (- 4 + 1)" by (simp_all add: pow2_def)
  have "?x / pow2 (max (- 4 - 52) (- 1074)) = real_of_int 7205759403792793 + 1 / 2"
    by (simp add: pow2_def)
  moreover have "round_even (real_of_int 7205759403792793 + 1 / 2) = 7205759403792794"
  proof -
    have "\<lfloor>real_of_int 7205759403792793 + 1 / 2\<rfloor> = 7205759403792793"
      by (intro floor_unique) simp_all
    then show ?thesis by (simp add: round_even_def)
  qed
  ultimately show ?thesis
    unfolding round_double_eq [OF b] by (simp add: pow2_def)
qed

lemma dot_fused:
  "round_double (3602879701896397 / 2 ^ 55 * (3602879701896397 / 2 ^ 55) + 6485183463413514 / 2 ^ 56)
     = 7205759403792793 / 2 ^ 56"
proof -
  have "round_double (3602879701896397 / 2 ^ 55 * (3602879701896397 / 2 ^ 55) + 6485183463413514 / 2 ^ 56)
      = real_of_int 7205759403792793 * pow2 (max (- 4 - 52) (- 1074))"
    by (rule round_double_near) (simp_all add: pow2_def)
  then show ?thesis by (simp add: pow2_def)
qed

lemma gram_diagonal_residue:
  "round_double
     (round_double
        (round_double (round_double (3602879701896397 / 2 ^ 55 * (3602879701896397 / 2 ^ 55))
                       + round_double (5404319552844595 / 2 ^ 54 * (5404319552844595 / 2 ^ 54)))
         + round_double (round_double (3602879701896397 / 2 ^ 55 * (3602879701896397 / 2 ^ 55))
                         + round_double (5404319552844595 / 2 ^ 54 * (5404319552844595 / 2 ^ 54))))
      - round_double
          (2 * round_double (3602879701896397 / 2 ^ 55 * (3602879701896397 / 2 ^ 55)
                             + round_double (5404319552844595 / 2 ^ 54 * (5404319552844595 / 2 ^ 54)))))
   = 1 / 2 ^ 55"
proof -
  have ss: "round_double (7205759403792794 / 2 ^ 56 + 7205759403792794 / 2 ^ 56)
      = 7205759403792794 / 2 ^ 55"
  proof -
    have "round_double (7205759403792794 / 2 ^ 56 + 7205759403792794 / 2 ^ 56)
        = 7205759403792794 / 2 ^ 56 + 7205759403792794 / 2 ^ 56"
      by (rule round_double_exact [where k = "- 3" and m = 7205759403792794])
        (simp_all add: pow2_def)
    then show ?thesis by simp
  qed
  have dd: "round_double (2 * (7205759403792793 / 2 ^ 56)) = 7205759403792793 / 2 ^ 55"
  proof -
    have "round_double (2 * (7205759403792793 / 2 ^ 56)) = 2 * (7205759403792793 / 2 ^ 56)"
      by (rule round_double_exact [where k = "- 3" and m = 7205759403792793])
        (simp_all add: pow2_def)
    then show ?thesis by simp
  qed
  have "7205759403792794 / 2 ^ 55 - 7205759403792793 / 2 ^ 55 = (1 / 2 ^ 55 :: real)" by simp
  then show ?thesis
    unfolding square_tenth square_three_tenths sum_squares_rounded dot_fused ss dd
    using round_double_2_55 by (simp only:)
qed

lemma trained_run_calls:
  "trained (run_calls self calls) = (trained self \<or> (\<exists>c \<in> set calls. is_fit c))"
proof (induction calls arbitrary: self)
  case Nil
  then show ?case by (simp add: run_calls_def)
next
  case (Cons c calls)
  have "run_calls self (c # calls) = run_calls (run_call self c) calls"
    by (simp add: run_calls_def)
  moreover have "trained (run_call self c) = (trained self \<or> is_fit c)"
    by (cases c) (simp_all add: rbf_fit_def)
  ultimately show ?case using Cons.IH [of "run_call self c"] by auto
qed

lemma predict_RuntimeError:
  "predict linalg_solve linalg_pinv self X_test = Inl RuntimeError \<longleftrightarrow> \<not> trained self"
proof
  assume r: "predict linalg_solve linalg_pinv self X_test = Inl RuntimeError"
  show "\<not> trained self"
  proof
    assume t: "trained self"
    have k: "rbf_kernel sig a b \<noteq> Inl RuntimeError" for sig a b
      by (simp add: rbf_kernel_def sq_dists_def Let_def)
    have m: "matvec n M v \<noteq> Inl RuntimeError" for n M v
      by (simp add: matvec_def)
    have sa: "solve_alpha linalg_solve linalg_pinv n K y \<noteq> Inl RuntimeError" for n K y
      using m by (simp add: solve_alpha_def split: option.splits)
    have b: "bind_err x f = (case x of Inl e \<Rightarrow> Inl e | Inr v \<Rightarrow> f v)"
      for x :: "error + 'a" and f :: "'a \<Rightarrow> error + 'b"
      by (cases x) simp_all
    have "predict linalg_solve linalg_pinv self X_test \<noteq> Inl RuntimeError"
      unfolding predict_def Let_def b using t k m sa
      by (auto split: option.splits sum.splits)
    with r show False by contradiction
  qed
next
  assume "\<not> trained self"
  then show "predict linalg_solve linalg_pinv self X_test = Inl RuntimeError"
    by (simp add: predict_def)
qed

text \<open>
  Claim C9 (lifecycle of predict). After any history of calls on a new instance,
  \<open>predict\<close> raises the model-not-trained error (RuntimeError) exactly when the history
  holds no \<open>fit\<close>. After a \<open>fit\<close> on a training set with no row, \<open>predict\<close> returns the
  all-zero vector with one entry per test row.
\<close>

theorem predict_lifecycle:
  "(predict linalg_solve linalg_pinv (run_calls (init_rbf sig lam) calls) X_test = Inl RuntimeError
      \<longleftrightarrow> (\<forall>c \<in> set calls. \<not> is_fit c)) \<and>
   (nrows X = 0 \<longrightarrow>
      predict linalg_solve linalg_pinv (rbf_fit self X y) X_test = Inr (replicate (nrows X_test) 0))"
proof -
  have "trained (run_calls (init_rbf sig lam) calls) = (\<exists>c \<in> set calls. is_fit c)"
    by (simp add: trained_run_calls init_rbf_def)
  then have "predict linalg_solve linalg_pinv (run_calls (init_rbf sig lam) calls) X_test
      = Inl RuntimeError \<longleftrightarrow> (\<forall>c \<in> set calls. \<not> is_fit c)"
    by (simp add: predict_RuntimeError)
  moreover have "predict linalg_solve linalg_pinv (rbf_fit self X y) X_test
      = Inr (replicate (nrows X_test) 0)" if "nrows X = 0"
    using that by (simp add: predict_def rbf_fit_def)
  ultimately show ?thesis by blast
qed

theorem predict_lifecycle_witness:
  "predict (\<lambda>A y. None) (\<lambda>A. A) (run_calls (init_rbf 1 0) [Predict (Array2 1 [[2]])])
     (Array2 1 [[1], [2]]) = Inl RuntimeError \<and>
   predict (\<lambda>A y. None) (\<lambda>A. A)
     (run_calls (init_rbf 1 0) [Predict (Array2 1 [[2]]), Fit (Array2 1 [[0]]) [5]])
     (Array2 1 [[1], [2]]) \<noteq> Inl RuntimeError \<and>
   predict (\<lambda>A y. None) (\<lambda>A. A) (rbf_fit (init_rbf 1 0) (Array2 1 []) []) (Array2 1 [[1], [2]])
     = Inr [0, 0]"
proof -
  let ?p = "predict (\<lambda>A y. None) (\<lambda>A. A)"
  let ?Xt = "Array2 1 [[1], [2]]"
  have 1: "?p (run_calls (init_rbf 1 0) [Predict (Array2 1 [[2]])]) ?Xt = Inl RuntimeError"
    using predict_lifecycle [of "\<lambda>A y. None" "\<lambda>A. A" 1 0 "[Predict (Array2 1 [[2]])]" ?Xt]
    by simp
  have 2: "?p (run_calls (init_rbf 1 0) [Predict (Array2 1 [[2]]), Fit (Array2 1 [[0]]) [5]]) ?Xt
      \<noteq> Inl RuntimeError"
    using predict_lifecycle [of "\<lambda>A y. None" "\<lambda>A. A" 1 0
        "[Predict (Array2 1 [[2]]), Fit (Array2 1 [[0]]) [5]]" ?Xt]
    by simp
  have n: "nrows (Array2 1 []) = 0" "replicate (nrows ?Xt) (0::real) = [0, 0]"
    by (simp_all add: nrows_def)
  have 3: "?p (rbf_fit (init_rbf 1 0) (Array2 1 []) []) ?Xt = Inr [0, 0]"
    using predict_lifecycle [of "\<lambda>A y. None" "\<lambda>A. A" 1 0 "[]" ?Xt "Array2 1 []"
        "init_rbf 1 0" "[]"] n
    by simp
  from 1 2 3 show ?thesis by blast
qed

lemma mm_assoc: "mm n (mm n f g) h = mm n f (mm n g h)"
proof (intro ext)
  fix i j
  have "mm n (mm n f g) h i j = (\<Sum>k<n. \<Sum>l<n. f i l * g l k * h k j)"
    by (simp add: mm_def sum_distrib_right)
  also have "\<dots> = (\<Sum>l<n. \<Sum>k<n. f i l * g l k * h k j)"
    by (rule sum.swap)
  also have "\<dots> = mm n f (mm n g h) i j"
    by (simp add: mm_def sum_distrib_left mult.assoc)
  finally show "mm n (mm n f g) h i j = mm n f (mm n g h) i j" .
qed

lemma tr_mm: "tr (mm n f g) = mm n (tr g) (tr f)"
  by (intro ext) (simp add: tr_def mm_def mult.commute)

lemma tr_tr: "tr (tr f) = f"
  by (simp add: tr_def)

lemma penrose_unique:
  assumes "penrose n a b" "penrose n a c"
  shows "b = c"
proof -
  from assms(1) have b1: "mm n (mm n a b) a = a" and b2: "mm n (mm n b a) b = b"
    and b3: "tr (mm n a b) = mm n a b" and b4: "tr (mm n b a) = mm n b a"
    by (simp_all add: penrose_def)
  from assms(2) have c1: "mm n (mm n a c) a = a" and c2: "mm n (mm n c a) c = c"
    and c3: "tr (mm n a c) = mm n a c" and c4: "tr (mm n c a) = mm n c a"
    by (simp_all add: penrose_def)
  have ab_ac: "mm n (mm n a b) (mm n a c) = mm n a c"
  proof -
    have "mm n (mm n a b) (mm n a c) = mm n (mm n (mm n a b) a) c"
      by (simp only: mm_assoc)
    then show ?thesis by (simp only: b1)
  qed
  have "mm n (mm n a c) (mm n a b) = tr (mm n (mm n a b) (mm n a c))"
    using tr_mm [of n "mm n a b" "mm n a c"] by (simp only: b3 c3)
  then have ac_ab: "mm n (mm n a c) (mm n a b) = mm n a c"
    by (simp only: ab_ac c3)
  have "mm n (mm n a c) (mm n a b) = mm n (mm n (mm n a c) a) b"
    by (simp only: mm_assoc)
  then have "mm n (mm n a c) (mm n a b) = mm n a b" by (simp only: c1)
  with ac_ab have ab_eq: "mm n a b = mm n a c" by simp
  have ba_ca: "mm n (mm n b a) (mm n c a) = mm n b a"
  proof -
    have "mm n (mm n b a) (mm n c a) = mm n b (mm n (mm n a c) a)"
      by (simp only: mm_assoc)
    then show ?thesis by (simp only: c1)
  qed
  have "mm n (mm n c a) (mm n b a) = tr (mm n (mm n b a) (mm n c a))"
    using tr_mm [of n "mm n b a" "mm n c a"] by (simp only: b4 c4)
  then have ca_ba: "mm n (mm n c a) (mm n b a) = mm n b a"
    by (simp only: ba_ca b4)
  have "mm n (mm n c a) (mm n b a) = mm n c (mm n (mm n a b) a)"
    by (simp only: mm_assoc)
  then have "mm n (mm n c a) (mm n b a) = mm n c a" by (simp only: b1)
  with ca_ba have ba_eq: "mm n b a = mm n c a" by simp
  have "b = mm n (mm n b a) b" by (simp only: b2)
  also have "\<dots> = mm n (mm n c a) b" by (simp only: ba_eq)
  also have "\<dots> = mm n c (mm n a b)" by (simp only: mm_assoc)
  also have "\<dots> = mm n c (mm n a c)" by (simp only: ab_eq)
  also have "\<dots> = mm n (mm n c a) c" by (simp only: mm_assoc)
  also have "\<dots> = c" by (simp only: c2)
  finally show ?thesis .
qed

lemma sum_perm:
  assumes "bij_betw pf {..<n} {..<n}"
  shows "(\<Sum>k<n. h (pf k)) = (\<Sum>k<n. h k :: real)"
  using assms by (rule sum.reindex_bij_betw)

lemma bij_less: "bij_betw pf {..<n} {..<n} \<Longrightarrow> i < n \<Longrightarrow> pf i < n"
  by (auto simp: bij_betw_def)

lemma pm_mm:
  assumes "bij_betw pf {..<n} {..<n}"
  shows "pm n pf (mm n f g) = mm n (pm n pf f) (pm n pf g)"
proof (intro ext)
  fix i j
  show "pm n pf (mm n f g) i j = mm n (pm n pf f) (pm n pf g) i j"
  proof (cases "i < n \<and> j < n")
    case True
    have "mm n (pm n pf f) (pm n pf g) i j = (\<Sum>k<n. f (pf i) (pf k) * g (pf k) (pf j))"
      using True by (simp add: mm_def pm_def)
    also have "\<dots> = (\<Sum>k<n. f (pf i) k * g k (pf j))"
      using sum_perm [OF assms, of "\<lambda>k. f (pf i) k * g k (pf j)"] .
    also have "\<dots> = pm n pf (mm n f g) i j"
      using True by (simp add: mm_def pm_def)
    finally show ?thesis by simp
  next
    case False
    then have "(\<lambda>k. pm n pf f i k * pm n pf g k j) = (\<lambda>k. 0)"
      by (auto simp: pm_def)
    then have "mm n (pm n pf f) (pm n pf g) i j = 0"
      unfolding mm_def by (simp only: sum.neutral_const)
    moreover have "pm n pf (mm n f g) i j = 0"
      using False by (auto simp: pm_def)
    ultimately show ?thesis by simp
  qed
qed

lemma pm_tr: "pm n pf (tr f) = tr (pm n pf f)"
  by (intro ext) (auto simp: pm_def tr_def)

lemma penrose_pm:
  assumes "bij_betw pf {..<n} {..<n}" "penrose n a b"
  shows "penrose n (pm n pf a) (pm n pf b)"
proof -
  note m = pm_mm [OF assms(1), symmetric]
  from assms(2) have b1: "mm n (mm n a b) a = a" and b2: "mm n (mm n b a) b = b"
    and b3: "tr (mm n a b) = mm n a b" and b4: "tr (mm n b a) = mm n b a"
    by (simp_all add: penrose_def)
  have "mm n (mm n (pm n pf a) (pm n pf b)) (pm n pf a) = pm n pf a"
    by (simp only: m b1)
  moreover have "mm n (mm n (pm n pf b) (pm n pf a)) (pm n pf b) = pm n pf b"
    by (simp only: m b2)
  moreover have "tr (mm n (pm n pf a) (pm n pf b)) = mm n (pm n pf a) (pm n pf b)"
    by (simp only: m pm_tr [symmetric] b3)
  moreover have "tr (mm n (pm n pf b) (pm n pf a)) = mm n (pm n pf b) (pm n pf a)"
    by (simp only: m pm_tr [symmetric] b4)
  ultimately show ?thesis by (simp only: penrose_def)
qed

lemma mv_pm:
  assumes "bij_betw pf {..<n} {..<n}" "i < n"
  shows "mv n (pm n pf a) (pv n pf u) i = mv n a u (pf i)"
proof -
  have "mv n (pm n pf a) (pv n pf u) i = (\<Sum>j<n. a (pf i) (pf j) * u (pf j))"
    using assms(2) by (simp add: mv_def pm_def pv_def)
  also have "\<dots> = (\<Sum>j<n. a (pf i) j * u j)"
    using sum_perm [OF assms(1), of "\<lambda>j. a (pf i) j * u j"] .
  finally show ?thesis by (simp add: mv_def)
qed

lemma mv_pm_outside: "\<not> i < n \<Longrightarrow> mv n (pm n pf a) u i = 0"
  by (simp add: mv_def pm_def)

lemma nonsingular_pm:
  assumes bij: "bij_betw pf {..<n} {..<n}" and supp: "\<And>i j. \<not> i < n \<Longrightarrow> a i j = 0"
    and ns: "nonsingular n a"
  shows "nonsingular n (pm n pf a)"
  unfolding nonsingular_def
proof (intro allI impI)
  fix u j
  assume z: "mv n (pm n pf a) u = (\<lambda>i. 0)" and j: "j < n"
  let ?qf = "inv_into {..<n} pf"
  have inj: "inj_on pf {..<n}" and img: "pf ` {..<n} = {..<n}"
    using bij by (simp_all add: bij_betw_def)
  have q1: "?qf (pf i) = i" if "i < n" for i
    using inj that by (simp add: inv_into_f_f)
  have q2: "pf (?qf k) = k \<and> ?qf k < n" if "k < n" for k
  proof -
    from that img have "k \<in> pf ` {..<n}" by simp
    then show ?thesis
      using f_inv_into_f [of k pf "{..<n}"] inv_into_into [of k pf "{..<n}"] by simp
  qed
  let ?v = "\<lambda>k. if k < n then u (?qf k) else 0"
  have "mv n a ?v i' = 0" for i'
  proof (cases "i' < n")
    case True
    with q2 obtain i where i: "i < n" "pf i = i'" by blast
    have "mv n a ?v (pf i) = (\<Sum>k<n. a (pf i) k * ?v k)" by (simp add: mv_def)
    also have "\<dots> = (\<Sum>k<n. a (pf i) (pf k) * ?v (pf k))"
      using sum_perm [OF bij, of "\<lambda>k. a (pf i) k * ?v k"] by simp
    also have "\<dots> = (\<Sum>k<n. a (pf i) (pf k) * u k)"
      using bij_less [OF bij] q1 by (intro sum.cong) simp_all
    also have "\<dots> = mv n (pm n pf a) u i"
      using i(1) by (simp add: mv_def pm_def)
    also have "\<dots> = 0" using z by simp
    finally show ?thesis using i(2) by simp
  next
    case False
    then show ?thesis by (simp add: mv_def supp)
  qed
  then have "mv n a ?v = (\<lambda>i. 0)" by (intro ext)
  with ns have "\<forall>k<n. ?v k = 0" unfolding nonsingular_def by blast
  with bij_less [OF bij j] have "?v (pf j) = 0" by blast
  with bij_less [OF bij j] q1 [OF j] show "u j = 0" by simp
qed

lemma pm_inverse:
  assumes bij: "bij_betw pf {..<n} {..<n}" and supp: "\<And>i j. \<not> (i < n \<and> j < n) \<Longrightarrow> a i j = 0"
  shows "pm n (inv_into {..<n} pf) (pm n pf a) = a"
proof (intro ext)
  fix i j
  let ?qf = "inv_into {..<n} pf"
  have img: "pf ` {..<n} = {..<n}" using bij by (simp add: bij_betw_def)
  have q2: "pf (?qf k) = k \<and> ?qf k < n" if "k < n" for k
  proof -
    from that img have "k \<in> pf ` {..<n}" by simp
    then show ?thesis
      using f_inv_into_f [of k pf "{..<n}"] inv_into_into [of k pf "{..<n}"] by simp
  qed
  show "pm n ?qf (pm n pf a) i j = a i j"
  proof (cases "i < n \<and> j < n")
    case True
    with q2 [of i] q2 [of j] show ?thesis by (simp add: pm_def)
  next
    case False
    with supp [of i j] show ?thesis by (auto simp: pm_def)
  qed
qed

lemma nonsingular_pm_iff:
  assumes bij: "bij_betw pf {..<n} {..<n}" and supp: "\<And>i j. \<not> (i < n \<and> j < n) \<Longrightarrow> a i j = 0"
  shows "nonsingular n (pm n pf a) \<longleftrightarrow> nonsingular n a"
proof
  assume ns: "nonsingular n (pm n pf a)"
  have bq: "bij_betw (inv_into {..<n} pf) {..<n} {..<n}"
    using bij by (rule bij_betw_inv_into)
  have "nonsingular n (pm n (inv_into {..<n} pf) (pm n pf a))"
    using bq _ ns by (rule nonsingular_pm) (simp add: pm_def)
  moreover have "pm n (inv_into {..<n} pf) (pm n pf a) = a"
    using bij supp by (rule pm_inverse)
  ultimately show "nonsingular n a" by simp
next
  assume ns: "nonsingular n a"
  show "nonsingular n (pm n pf a)"
    by (rule nonsingular_pm [OF bij _ ns]) (simp add: supp)
qed

lemma solution_pm:
  assumes bij: "bij_betw pf {..<n} {..<n}"
    and ns: "nonsingular n (pm n pf a)"
    and s: "\<And>i. i < n \<Longrightarrow> mv n a u i = y i"
    and s': "\<And>i. i < n \<Longrightarrow> mv n (pm n pf a) u' i = y (pf i)"
    and j: "j < n"
  shows "u' j = u (pf j)"
proof -
  let ?d = "\<lambda>j. u' j - pv n pf u j"
  have "mv n (pm n pf a) ?d i = 0" for i
  proof (cases "i < n")
    case True
    have "mv n (pm n pf a) ?d i = mv n (pm n pf a) u' i - mv n (pm n pf a) (pv n pf u) i"
      by (simp add: mv_def right_diff_distrib sum_subtractf)
    also have "\<dots> = y (pf i) - mv n a u (pf i)"
      by (simp only: s' [OF True] mv_pm [OF bij True])
    also have "\<dots> = 0" using s [OF bij_less [OF bij True]] by simp
    finally show ?thesis .
  next
    case False
    then show ?thesis by (rule mv_pm_outside)
  qed
  then have "mv n (pm n pf a) ?d = (\<lambda>i. 0)" by (intro ext)
  with ns j have "?d j = 0" unfolding nonsingular_def by blast
  with j show ?thesis by (simp add: pv_def)
qed

lemma rbf_kernel_gram:
  assumes "sig \<noteq> 0" "ncols x1 = ncols x2"
  shows "rbf_kernel sig x1 x2 = Inr (map (\<lambda>u. map (gram_entry sig u) (rows x2)) (rows x1))"
  using rbf_kernel_Inr [OF assms] by (simp add: gram_entry_def [abs_def])

lemma rbf_kernel_sigma0: "rbf_kernel 0 x1 x2 = Inl ZeroDivisionError"
  by (simp add: rbf_kernel_def)

lemma rbf_kernel_cols:
  assumes "sig \<noteq> 0" "ncols x1 \<noteq> ncols x2"
  shows "rbf_kernel sig x1 x2 = Inl ValueError"
  using assms by (simp add: rbf_kernel_def sq_dists_def)

lemma perm_facts:
  assumes "mset p = mset [0..<n]"
  shows "length p = n" "set p = {..<n}" "distinct p" "bij_betw (\<lambda>i. p ! i) {..<n} {..<n}"
proof -
  from assms show l: "length p = n" by (metis length_upt mset_eq_length minus_nat.diff_0)
  from assms show s: "set p = {..<n}" by (metis atLeast_upt mset_eq_setD)
  from assms show d: "distinct p" by (metis distinct_upt mset_eq_imp_distinct_iff)
  from d l s show "bij_betw (\<lambda>i. p ! i) {..<n} {..<n}"
    by (intro bij_betw_nth) simp_all
qed

lemma dot_sum:
  assumes "length u = n" "length v = n"
  shows "dot u v = (\<Sum>j<n. u ! j * v ! j)"
proof -
  have "dot u v = (\<Sum>j = 0..<length (map2 (\<lambda>a b. a * b) u v). map2 (\<lambda>a b. a * b) u v ! j)"
    unfolding dot_def by (rule sum_list_sum_nth)
  also have "\<dots> = (\<Sum>j = 0..<n. u ! j * v ! j)"
    using assms by (intro sum.cong) simp_all
  finally show ?thesis by (simp add: atLeast0LessThan)
qed

lemma reg_entry:
  assumes "i < length R" "j < length R"
  shows "mat_add (map (\<lambda>u. map (g u) R) R) (mat_scale lam (eye (length R))) ! i ! j
       = g (R ! i) (R ! j) + lam * (if i = j then 1 else 0)"
  using assms by (simp add: mat_add_def mat_scale_def eye_def)

lemma reg_square:
  "square (length R) (mat_add (map (\<lambda>u. map (g u) R) R) (mat_scale lam (eye (length R))))"
  by (auto simp: square_def mat_add_def mat_scale_def eye_def list_all_iff set_zip)

lemma mat_reg_permute:
  assumes p: "mset p = mset [0..<length R]"
  shows "mat (length R) (mat_add (map (\<lambda>u. map (g u) (permute R p)) (permute R p))
                            (mat_scale lam (eye (length R))))
       = pm (length R) (\<lambda>i. p ! i)
           (mat (length R) (mat_add (map (\<lambda>u. map (g u) R) R) (mat_scale lam (eye (length R)))))"
proof (intro ext)
  fix i j
  let ?n = "length R"
  note pf = perm_facts [OF p]
  have lp: "length (permute R p) = ?n" by (simp add: permute_def pf(1))
  show "mat ?n (mat_add (map (\<lambda>u. map (g u) (permute R p)) (permute R p))
                  (mat_scale lam (eye ?n))) i j
      = pm ?n (\<lambda>i. p ! i) (mat ?n (mat_add (map (\<lambda>u. map (g u) R) R) (mat_scale lam (eye ?n)))) i j"
  proof (cases "i < ?n \<and> j < ?n")
    case True
    then have pi: "p ! i < ?n" "p ! j < ?n"
      using bij_less [OF pf(4)] by simp_all
    have inj: "p ! i = p ! j \<longleftrightarrow> i = j"
      using True pf(1,3) by (simp add: nth_eq_iff_index_eq)
    have "mat_add (map (\<lambda>u. map (g u) (permute R p)) (permute R p))
            (mat_scale lam (eye (length (permute R p)))) ! i ! j
        = g (permute R p ! i) (permute R p ! j) + lam * (if i = j then 1 else 0)"
      using True lp by (intro reg_entry) simp_all
    also have "\<dots> = g (R ! (p ! i)) (R ! (p ! j)) + lam * (if p ! i = p ! j then 1 else 0)"
      using True pf(1) by (simp add: permute_def inj)
    also have "\<dots> = mat_add (map (\<lambda>u. map (g u) R) R) (mat_scale lam (eye ?n)) ! (p ! i) ! (p ! j)"
      using pi by (simp add: reg_entry)
    finally show ?thesis using True pi by (simp add: mat_def pm_def lp)
  next
    case False
    then show ?thesis by (auto simp: mat_def pm_def)
  qed
qed

lemma mat_outside: "\<not> (i < n \<and> j < n) \<Longrightarrow> mat n A i j = 0"
  by (auto simp: mat_def)

lemma mv_mat_vec:
  assumes "square n B" "length y = n" "i < n"
  shows "mv n (mat n B) (vec n y) i = dot (B ! i) y"
proof -
  from assms(1,3) have "length (B ! i) = n" by (simp add: square_def list_all_length)
  from dot_sum [OF this assms(2)] assms(3) show ?thesis
    by (simp add: mv_def mat_def vec_def)
qed

text \<open>The coefficients of the permuted system are the permuted coefficients.\<close>

lemma solve_alpha_permute:
  assumes p: "mset p = mset [0..<n]" and ly: "length y = n"
    and A': "mat n A' = pm n (\<lambda>i. p ! i) (mat n A)"
    and c: "linalg_contract linalg_solve linalg_pinv n A y"
    and c': "linalg_contract linalg_solve linalg_pinv n A' (permute y p)"
  shows "\<exists>alpha alpha'. solve_alpha linalg_solve linalg_pinv n A y = Inr alpha \<and>
           solve_alpha linalg_solve linalg_pinv n A' (permute y p) = Inr alpha' \<and>
           length alpha = n \<and> length alpha' = n \<and> (\<forall>i<n. alpha' ! i = alpha ! (p ! i))"
proof -
  note pf = perm_facts [OF p]
  let ?pf = "\<lambda>i. p ! i"
  have ly': "length (permute y p) = n" by (simp add: permute_def pf(1))
  have y': "permute y p ! i = y ! (p ! i)" if "i < n" for i
    using that pf(1) by (simp add: permute_def)
  have ns_iff: "nonsingular n (mat n A') \<longleftrightarrow> nonsingular n (mat n A)"
    unfolding A' using pf(4) by (rule nonsingular_pm_iff) (rule mat_outside)
  show ?thesis
  proof (cases "linalg_solve A y")
    case (Some alpha)
    with c have a: "length alpha = n" "\<And>i. i < n \<Longrightarrow> mv n (mat n A) (vec n alpha) i = y ! i"
      "nonsingular n (mat n A)"
      by (simp_all add: linalg_contract_def)
    from a(3) ns_iff have ns': "nonsingular n (mat n A')" by simp
    with c' obtain alpha' where s': "linalg_solve A' (permute y p) = Some alpha'"
      by (cases "linalg_solve A' (permute y p)") (simp_all add: linalg_contract_def)
    with c' have a': "length alpha' = n"
      "\<And>i. i < n \<Longrightarrow> mv n (mat n A') (vec n alpha') i = permute y p ! i"
      by (simp_all add: linalg_contract_def)
    have "vec n alpha' j = vec n alpha (p ! j)" if "j < n" for j
    proof (rule solution_pm [OF pf(4) _ _ _ that, where a = "mat n A" and y = "\<lambda>i. y ! i"])
      show "nonsingular n (pm n ?pf (mat n A))" using ns' by (simp only: A')
      show "mv n (mat n A) (vec n alpha) i = y ! i" if "i < n" for i by (rule a(2) [OF that])
      show "mv n (pm n ?pf (mat n A)) (vec n alpha') i = y ! (p ! i)" if "i < n" for i
        using a'(2) [OF that] y' [OF that] by (simp only: A')
    qed
    then have "alpha' ! j = alpha ! (p ! j)" if "j < n" for j
      using that bij_less [OF pf(4) that] by (simp add: vec_def)
    with Some s' a(1) a'(1) ly ly' show ?thesis
      by (simp add: solve_alpha_def)
  next
    case None
    with c have b: "\<not> nonsingular n (mat n A)" "square n (linalg_pinv A)"
      "penrose n (mat n A) (mat n (linalg_pinv A))"
      by (simp_all add: linalg_contract_def)
    from b(1) ns_iff have "\<not> nonsingular n (mat n A')" by simp
    with c' have s': "linalg_solve A' (permute y p) = None"
      by (cases "linalg_solve A' (permute y p)") (simp_all add: linalg_contract_def)
    with c' have b': "square n (linalg_pinv A')" "penrose n (mat n A') (mat n (linalg_pinv A'))"
      by (simp_all add: linalg_contract_def)
    let ?B = "linalg_pinv A" and ?B' = "linalg_pinv A'"
    have "penrose n (mat n A') (pm n ?pf (mat n ?B))"
      unfolding A' using pf(4) b(3) by (rule penrose_pm)
    with b'(2) have B': "mat n ?B' = pm n ?pf (mat n ?B)" by (rule penrose_unique)
    let ?alpha = "map (\<lambda>r. dot r y) ?B" and ?alpha' = "map (\<lambda>r. dot r (permute y p)) ?B'"
    have l: "length ?alpha = n" "length ?alpha' = n"
      using b(2) b'(1) by (simp_all add: square_def)
    have "?alpha' ! i = ?alpha ! (p ! i)" if i: "i < n" for i
    proof -
      have pi: "p ! i < n" using bij_less [OF pf(4) i] .
      have "?alpha' ! i = dot (?B' ! i) (permute y p)"
        using i b'(1) by (simp add: square_def)
      also have "\<dots> = mv n (mat n ?B') (vec n (permute y p)) i"
        using mv_mat_vec [OF b'(1) ly' i] by simp
      also have "vec n (permute y p) = pv n ?pf (vec n y)"
        using y' bij_less [OF pf(4)] by (intro ext) (simp add: vec_def pv_def)
      also have "mv n (mat n ?B') (pv n ?pf (vec n y)) i = mv n (mat n ?B) (vec n y) (p ! i)"
        unfolding B' using pf(4) i by (rule mv_pm)
      also have "\<dots> = dot (?B ! (p ! i)) y"
        using b(2) ly pi by (rule mv_mat_vec)
      also have "\<dots> = ?alpha ! (p ! i)"
        using pi b(2) by (simp add: square_def)
      finally show ?thesis .
    qed
    with None s' l ly ly' show ?thesis
      by (simp add: solve_alpha_def matvec_def)
  qed
qed

lemma predictions_permute:
  assumes p: "mset p = mset [0..<length R]"
    and l: "length alpha = length R" "length alpha' = length R"
    and a: "\<And>i. i < length R \<Longrightarrow> alpha' ! i = alpha ! (p ! i)"
  shows "dot (map (g u) (permute R p)) alpha' = dot (map (g u) R) alpha"
proof -
  let ?n = "length R"
  note pf = perm_facts [OF p]
  have "dot (map (g u) (permute R p)) alpha' = (\<Sum>j<?n. map (g u) (permute R p) ! j * alpha' ! j)"
    using l(2) pf(1) by (intro dot_sum) (simp_all add: permute_def)
  also have "\<dots> = (\<Sum>j<?n. g u (R ! (p ! j)) * alpha ! (p ! j))"
    using a pf(1) by (intro sum.cong) (simp_all add: permute_def)
  also have "\<dots> = (\<Sum>k<?n. g u (R ! k) * alpha ! k)"
    using sum_perm [OF pf(4), of "\<lambda>k. g u (R ! k) * alpha ! k"] .
  also have "\<dots> = (\<Sum>k<?n. map (g u) R ! k * alpha ! k)"
    by (intro sum.cong) simp_all
  also have "\<dots> = dot (map (g u) R) alpha"
    using l(1) by (intro dot_sum [symmetric]) simp_all
  finally show ?thesis .
qed

lemma predict_fit_empty:
  "nrows X = 0 \<Longrightarrow>
   predict linalg_solve linalg_pinv (rbf_fit self X y) X_test = Inr (replicate (nrows X_test) 0)"
  by (simp add: predict_def rbf_fit_def)

lemma predict_fit_nonempty:
  assumes "nrows X \<noteq> 0"
  shows "predict linalg_solve linalg_pinv (rbf_fit self X y) X_test =
     bind_err (rbf_kernel (sigma self) X_test X) (\<lambda>K_test_train.
     bind_err (rbf_kernel (sigma self) X X) (\<lambda>K_train_train.
     bind_err (solve_alpha linalg_solve linalg_pinv (nrows X)
                 (mat_add K_train_train (mat_scale (lambda_reg self) (eye (nrows X)))) y)
       (\<lambda>alpha. matvec (nrows X) K_test_train alpha)))"
  using assms by (simp add: predict_def rbf_fit_def Let_def)

text \<open>
  Claim C8 (permuting the training rows). Let the rows of the training set and its targets
  be permuted together. Where \<open>predict\<close> reaches the solver (the training set has a row and
  \<open>sigma\<close> is not zero), let \<open>np.linalg.solve\<close> and \<open>np.linalg.pinv\<close> do on the two
  regularised Gram matrices what they are documented to do, in exact arithmetic: \<open>solve\<close>
  returns the solution of a regular system and fails on a singular one, and \<open>pinv\<close>
  returns the Moore-Penrose inverse. Then \<open>predict\<close> returns the same result for the
  permuted and the unpermuted model, on every test array; it is a prediction vector with
  one entry per test row when \<open>sigma\<close> is not zero and the test array has the columns of
  the training array.
\<close>

theorem predict_permutation_invariant:
  assumes p: "mset p = mset [0..<nrows X]" and ly: "length y = nrows X"
    and c: "nrows X \<noteq> 0 \<Longrightarrow> sigma self \<noteq> 0 \<Longrightarrow>
              linalg_contract linalg_solve linalg_pinv (nrows X)
                (reg_gram (sigma self) (lambda_reg self) X) y"
    and c': "nrows X \<noteq> 0 \<Longrightarrow> sigma self \<noteq> 0 \<Longrightarrow>
              linalg_contract linalg_solve linalg_pinv (nrows X)
                (reg_gram (sigma self) (lambda_reg self) (permute_rows X p)) (permute y p)"
  shows "predict linalg_solve linalg_pinv (rbf_fit self (permute_rows X p) (permute y p)) X_test
       = predict linalg_solve linalg_pinv (rbf_fit self X y) X_test \<and>
     (sigma self \<noteq> 0 \<and> ncols X_test = ncols X \<longrightarrow>
        (\<exists>preds. predict linalg_solve linalg_pinv (rbf_fit self X y) X_test = Inr preds \<and>
           length preds = nrows X_test))"
proof -
  let ?n = "nrows X" and ?X' = "permute_rows X p" and ?y' = "permute y p"
  let ?R = "rows X" and ?sig = "sigma self" and ?lam = "lambda_reg self"
  let ?P = "predict linalg_solve linalg_pinv"
  have n: "?n = length ?R" by (simp add: nrows_def)
  note pf = perm_facts [OF p]
  have n': "nrows ?X' = ?n" by (simp add: nrows_def permute_rows_def permute_def pf(1))
  have cols': "ncols ?X' = ncols X" by (simp add: permute_rows_def)
  have rows': "rows ?X' = permute ?R p" by (simp add: permute_rows_def)
  show ?thesis
  proof (cases "?n = 0")
    case True
    with n' show ?thesis by (simp add: predict_fit_empty)
  next
    case n0: False
    with n' have n0': "nrows ?X' \<noteq> 0" by simp
    note P = predict_fit_nonempty [OF n0, of linalg_solve linalg_pinv self y X_test]
    note P' = predict_fit_nonempty [OF n0', of linalg_solve linalg_pinv self ?y' X_test]
    show ?thesis
    proof (cases "?sig = 0")
      case True
      then show ?thesis by (simp add: P P' rbf_kernel_sigma0)
    next
      case s: False
      show ?thesis
      proof (cases "ncols X_test = ncols X")
        case False
        with s show ?thesis by (simp add: P P' rbf_kernel_cols cols')
      next
        case cols: True
        let ?g = "gram_entry ?sig"
        let ?Ktt = "map (\<lambda>u. map (?g u) ?R) (rows X_test)"
        let ?Ktt' = "map (\<lambda>u. map (?g u) (permute ?R p)) (rows X_test)"
        let ?K = "map (\<lambda>u. map (?g u) ?R) ?R"
        let ?K' = "map (\<lambda>u. map (?g u) (permute ?R p)) (permute ?R p)"
        let ?A = "mat_add ?K (mat_scale ?lam (eye ?n))"
        let ?A' = "mat_add ?K' (mat_scale ?lam (eye ?n))"
        have k1: "rbf_kernel ?sig X_test X = Inr ?Ktt"
          using s cols by (rule rbf_kernel_gram)
        have k2: "rbf_kernel ?sig X X = Inr ?K"
          by (rule rbf_kernel_gram [OF s]) simp
        have k1': "rbf_kernel ?sig X_test ?X' = Inr ?Ktt'"
          using s cols cols' by (simp add: rbf_kernel_gram rows')
        have k2': "rbf_kernel ?sig ?X' ?X' = Inr ?K'"
          using s by (simp add: rbf_kernel_gram rows')
        have rg: "reg_gram ?sig ?lam X = ?A" by (simp add: reg_gram_def k2)
        have rg': "reg_gram ?sig ?lam ?X' = ?A'" by (simp add: reg_gram_def k2' n')
        have m: "mat ?n ?A' = pm ?n (\<lambda>i. p ! i) (mat ?n ?A)"
          unfolding n using p [unfolded n] by (rule mat_reg_permute)
        from solve_alpha_permute [OF p ly m c [OF n0 s, unfolded rg] c' [OF n0 s, unfolded rg']]
        obtain alpha alpha' where a:
          "solve_alpha linalg_solve linalg_pinv ?n ?A y = Inr alpha"
          "solve_alpha linalg_solve linalg_pinv ?n ?A' ?y' = Inr alpha'"
          "length alpha = ?n" "length alpha' = ?n" "\<forall>i<?n. alpha' ! i = alpha ! (p ! i)"
          by blast
        have d: "dot (map (?g u) (permute ?R p)) alpha' = dot (map (?g u) ?R) alpha" for u
          using p a(3,4,5) unfolding n by (intro predictions_permute) simp_all
        have r: "?P (rbf_fit self X y) X_test = Inr (map (\<lambda>r. dot r alpha) ?Ktt)"
          by (simp add: P k1 k2 a matvec_def)
        have r': "?P (rbf_fit self ?X' ?y') X_test = Inr (map (\<lambda>r. dot r alpha') ?Ktt')"
          by (simp add: P' k1' k2' n' a matvec_def)
        have "map (\<lambda>r. dot r alpha') ?Ktt' = map (\<lambda>r. dot r alpha) ?Ktt"
          by (simp add: d comp_def)
        with r r' show ?thesis by (simp add: nrows_def)
      qed
    qed
  qed
qed

lemma sum_lessThan_2: "(\<Sum>k<2. h k) = h 0 + (h (Suc 0) :: real)"
  by (simp add: numeral_2_eq_2)

lemma less_two_iff: "i < (2::nat) \<longleftrightarrow> i = 0 \<or> i = Suc 0"
  by auto

lemma nonsingular_2x2:
  assumes "a * d - b * c \<noteq> 0"
  shows "nonsingular 2 (mat 2 [[a, b], [c, d]])"
  unfolding nonsingular_def
proof (intro allI impI)
  fix u :: "nat \<Rightarrow> real" and j :: nat
  assume z: "mv 2 (mat 2 [[a, b], [c, d]]) u = (\<lambda>i. 0)" and j: "j < 2"
  from z have "mv 2 (mat 2 [[a, b], [c, d]]) u 0 = 0" "mv 2 (mat 2 [[a, b], [c, d]]) u (Suc 0) = 0"
    by simp_all
  then have e: "a * u 0 + b * u (Suc 0) = 0" "c * u 0 + d * u (Suc 0) = 0"
    by (simp_all add: mv_def mat_def sum_lessThan_2)
  have "(a * d - b * c) * u 0 = d * (a * u 0 + b * u (Suc 0)) - b * (c * u 0 + d * u (Suc 0))"
    by (simp add: algebra_simps)
  with e assms have u0: "u 0 = 0" by simp
  have "(a * d - b * c) * u (Suc 0) = a * (c * u 0 + d * u (Suc 0)) - c * (a * u 0 + b * u (Suc 0))"
    by (simp add: algebra_simps)
  with e assms have u1: "u (Suc 0) = 0" by simp
  from j u0 u1 show "u j = 0" by (auto simp: less_two_iff)
qed

lemma contract_2x2:
  assumes "a * d - b * c \<noteq> 0"
  shows "linalg_contract solve_2x2 linalg_pinv 2 [[a, b], [c, d]] [e, f]"
proof -
  let ?det = "a * d - b * c"
  let ?alpha = "[(e * d - b * f) / ?det, (a * f - c * e) / ?det]"
  have s: "solve_2x2 [[a, b], [c, d]] [e, f] = Some ?alpha" using assms by simp
  have 0: "mv 2 (mat 2 [[a, b], [c, d]]) (vec 2 ?alpha) 0 = e"
  proof -
    have "a * ((e * d - b * f) / ?det) + b * ((a * f - c * e) / ?det) = (e * ?det) / ?det"
      by (simp add: algebra_simps add_divide_distrib [symmetric] diff_divide_distrib [symmetric])
    then show ?thesis using assms by (simp add: mv_def mat_def vec_def sum_lessThan_2)
  qed
  have 1: "mv 2 (mat 2 [[a, b], [c, d]]) (vec 2 ?alpha) (Suc 0) = f"
  proof -
    have "c * ((e * d - b * f) / ?det) + d * ((a * f - c * e) / ?det) = (f * ?det) / ?det"
      by (simp add: algebra_simps add_divide_distrib [symmetric] diff_divide_distrib [symmetric])
    then show ?thesis using assms by (simp add: mv_def mat_def vec_def sum_lessThan_2)
  qed
  have "\<forall>i<2. mv 2 (mat 2 [[a, b], [c, d]]) (vec 2 ?alpha) i = [e, f] ! i"
    using 0 1 by (auto simp: less_two_iff)
  with nonsingular_2x2 [OF assms] show ?thesis
    unfolding linalg_contract_def s by simp
qed

lemma mm_2: "mm 2 f g i j = f i 0 * g 0 j + f i (Suc 0) * g (Suc 0) j"
  by (simp add: mm_def sum_lessThan_2)

lemma contract_ones:
  "linalg_contract solve_2x2 quarter 2 [[1, 1], [1, 1]] [e, f]"
proof -
  let ?J = "[[1, 1], [1, 1]] :: real list list"
  let ?a = "mat 2 ?J" and ?b = "mat 2 (quarter ?J)"
  have s: "solve_2x2 ?J [e, f] = None" by simp
  have "\<not> nonsingular 2 ?a"
  proof
    assume ns: "nonsingular 2 ?a"
    let ?u = "\<lambda>i::nat. if i = 0 then 1 else if i = Suc 0 then - 1 else (0::real)"
    have "mv 2 ?a ?u = (\<lambda>i. 0)"
      by (intro ext) (auto simp: mv_def mat_def sum_lessThan_2 less_two_iff)
    with ns have "\<forall>j<2. ?u j = 0" unfolding nonsingular_def by blast
    moreover have "(0::nat) < 2" by simp
    ultimately have "?u 0 = 0" by blast
    then show False by simp
  qed
  moreover have "square 2 (quarter ?J)" by (simp add: square_def quarter_def)
  moreover have "penrose 2 ?a ?b"
  proof -
    have a: "?a i j = (if i < 2 \<and> j < 2 then 1 else 0)" for i j
      by (auto simp: mat_def less_two_iff)
    have b: "?b i j = (if i < 2 \<and> j < 2 then 1 / 4 else 0)" for i j
      by (auto simp: mat_def quarter_def less_two_iff)
    have ab: "mm 2 ?a ?b i j = (if i < 2 \<and> j < 2 then 1 / 2 else 0)" for i j
      by (simp add: mm_2 a b)
    have ba: "mm 2 ?b ?a i j = (if i < 2 \<and> j < 2 then 1 / 2 else 0)" for i j
      by (simp add: mm_2 a b)
    have 1: "mm 2 (mm 2 ?a ?b) ?a = ?a"
      by (intro ext) (simp add: mm_2 [of "mm 2 ?a ?b"] ab a)
    have 2: "mm 2 (mm 2 ?b ?a) ?b = ?b"
      by (intro ext) (simp add: mm_2 [of "mm 2 ?b ?a"] ba b)
    have 3: "tr (mm 2 ?a ?b) = mm 2 ?a ?b"
      by (intro ext) (auto simp: tr_def ab)
    have 4: "tr (mm 2 ?b ?a) = mm 2 ?b ?a"
      by (intro ext) (auto simp: tr_def ba)
    from 1 2 3 4 show ?thesis by (simp only: penrose_def)
  qed
  ultimately show ?thesis unfolding linalg_contract_def s by simp
qed

lemma eye_2: "eye (Suc (Suc 0)) = [[1, 0], [0, 1]]"
  by (simp add: eye_def)

lemma reg_gram_two_points:
  "reg_gram 1 1 (Array2 1 [[0], [1]]) = [[2, exp (- (1 / 2))], [exp (- (1 / 2)), 2]]"
  "reg_gram 1 1 (Array2 1 [[1], [0]]) = [[2, exp (- (1 / 2))], [exp (- (1 / 2)), 2]]"
  by (simp_all add: reg_gram_def rbf_kernel_def sq_dists_def sum_sq_def dot_def Let_def
        nrows_def eye_2 mat_add_def mat_scale_def)

lemma reg_gram_same_points:
  "reg_gram 1 0 (Array2 1 [[0], [0]]) = [[1, 1], [1, 1]]"
  by (simp add: reg_gram_def rbf_kernel_def sq_dists_def sum_sq_def dot_def Let_def
        nrows_def eye_2 mat_add_def mat_scale_def)

lemma swap_perm: "mset [Suc 0, 0] = mset [0..<2]"
  by (simp add: numeral_2_eq_2)

theorem predict_permutation_invariant_witness:
  "predict solve_2x2 quarter (rbf_fit (init_rbf 1 1) (Array2 1 [[1], [0]]) [2, 1]) (Array2 1 [[0]])
     = predict solve_2x2 quarter (rbf_fit (init_rbf 1 1) (Array2 1 [[0], [1]]) [1, 2]) (Array2 1 [[0]]) \<and>
   (\<exists>preds. predict solve_2x2 quarter (rbf_fit (init_rbf 1 1) (Array2 1 [[0], [1]]) [1, 2])
              (Array2 1 [[0]]) = Inr preds \<and> length preds = 1) \<and>
   predict solve_2x2 quarter (rbf_fit (init_rbf 1 0) (Array2 1 [[0], [0]]) [3, 1]) (Array2 1 [[0]])
     = predict solve_2x2 quarter (rbf_fit (init_rbf 1 0) (Array2 1 [[0], [0]]) [1, 3]) (Array2 1 [[0]]) \<and>
   predict solve_2x2 quarter (rbf_fit (init_rbf 1 0) (Array2 1 [[0], [0]]) [1, 3]) (Array2 1 [[0]])
     = Inr [2]"
proof -
  let ?p = "[Suc 0, 0]"
  let ?Xt = "Array2 1 [[0]]"
  \<comment> \<open>two distinct points, ridge 1: the system is regular\<close>
  let ?X = "Array2 1 [[0], [1]]" and ?y = "[1, 2] :: real list" and ?self = "init_rbf 1 1"
  have nX: "nrows ?X = 2" by (simp add: nrows_def)
  have pX: "permute_rows ?X ?p = Array2 1 [[1], [0]]" "permute ?y ?p = [2, 1]"
    by (simp_all add: permute_rows_def permute_def)
  have sl: "sigma ?self = 1" "lambda_reg ?self = 1" by (simp_all add: init_rbf_def)
  have "exp (- (1 / 2)) < (1::real)" by simp
  moreover have "0 < exp (- (1 / 2) :: real)" by simp
  ultimately have "exp (- (1 / 2)) * exp (- (1 / 2)) < (1::real) * 1"
    by (intro mult_strict_mono) simp_all
  then have det: "2 * 2 - exp (- (1 / 2)) * exp (- (1 / 2)) \<noteq> (0::real)" by simp
  have c: "linalg_contract solve_2x2 quarter (nrows ?X)
             (reg_gram (sigma ?self) (lambda_reg ?self) ?X) ?y"
    unfolding nX sl reg_gram_two_points using det by (rule contract_2x2)
  have c': "linalg_contract solve_2x2 quarter (nrows ?X)
             (reg_gram (sigma ?self) (lambda_reg ?self) (permute_rows ?X ?p)) (permute ?y ?p)"
    unfolding nX sl pX reg_gram_two_points using det by (rule contract_2x2)
  have p: "mset ?p = mset [0..<nrows ?X]" unfolding nX by (rule swap_perm)
  have ly: "length ?y = nrows ?X" unfolding nX by simp
  have h: "sigma ?self \<noteq> 0 \<and> ncols ?Xt = ncols ?X" by (simp add: sl)
  from predict_permutation_invariant [OF p ly c c', of ?Xt] h
  have 1: "predict solve_2x2 quarter (rbf_fit ?self (permute_rows ?X ?p) (permute ?y ?p)) ?Xt
       = predict solve_2x2 quarter (rbf_fit ?self ?X ?y) ?Xt"
    and 2: "\<exists>preds. predict solve_2x2 quarter (rbf_fit ?self ?X ?y) ?Xt = Inr preds \<and>
           length preds = nrows ?Xt"
    by blast+
  \<comment> \<open>the same point twice, no ridge: the system is singular\<close>
  let ?Z = "Array2 1 [[0], [0]]" and ?z = "[1, 3] :: real list" and ?self0 = "init_rbf 1 0"
  have nZ: "nrows ?Z = 2" by (simp add: nrows_def)
  have pZ: "permute_rows ?Z ?p = ?Z" "permute ?z ?p = [3, 1]"
    by (simp_all add: permute_rows_def permute_def)
  have sl0: "sigma ?self0 = 1" "lambda_reg ?self0 = 0" by (simp_all add: init_rbf_def)
  have d: "linalg_contract solve_2x2 quarter (nrows ?Z)
             (reg_gram (sigma ?self0) (lambda_reg ?self0) ?Z) ?z"
    unfolding nZ sl0 reg_gram_same_points by (rule contract_ones)
  have d': "linalg_contract solve_2x2 quarter (nrows ?Z)
             (reg_gram (sigma ?self0) (lambda_reg ?self0) (permute_rows ?Z ?p)) (permute ?z ?p)"
    unfolding nZ sl0 pZ reg_gram_same_points by (rule contract_ones)
  have q: "mset ?p = mset [0..<nrows ?Z]" unfolding nZ by (rule swap_perm)
  have lz: "length ?z = nrows ?Z" unfolding nZ by simp
  from predict_permutation_invariant [OF q lz d d', of ?Xt]
  have 3: "predict solve_2x2 quarter (rbf_fit ?self0 (permute_rows ?Z ?p) (permute ?z ?p)) ?Xt
       = predict solve_2x2 quarter (rbf_fit ?self0 ?Z ?z) ?Xt"
    by blast
  have 4: "predict solve_2x2 quarter (rbf_fit ?self0 ?Z ?z) ?Xt = Inr [2]"
    by (simp add: predict_def rbf_fit_def init_rbf_def nrows_def rbf_kernel_def sq_dists_def
          sum_sq_def dot_def Let_def eye_def numeral_2_eq_2 mat_add_def mat_scale_def
          solve_alpha_def matvec_def quarter_def)
  from 1 2 3 4 show ?thesis unfolding pX pZ by (simp add: nrows_def)
qed

end
